theory Spec2Isabelle
  imports Complex_Main
begin

section \<open>Strings\<close>

text \<open>
  A JavaScript string is a sequence of UTF-16 code units and \<open>length\<close> counts them.
  The model uses \<open>string\<close>, whose characters are the code units below 256 (Latin-1),
  so \<open>length\<close> is the same count on every text made of such characters.
  \<open>isSpace\<close> is the class \<open>\s\<close> of the regular expressions, which is also what
  \<open>String.prototype.trim\<close> strips: on Latin-1 these are the code units 9 to 13, 32
  and 160.
\<close>

definition isSpace :: "char \<Rightarrow> bool" where
  "isSpace c = (of_char c \<in> {9, 10, 11, 12, 13, 32, 160 :: nat})"

definition trim :: "string \<Rightarrow> string" where
  "trim s = rev (dropWhile isSpace (rev (dropWhile isSpace s)))"

definition isSentenceEnd :: "char \<Rightarrow> bool" where
  "isSentenceEnd c = (c = CHR ''.'' \<or> c = CHR ''!'' \<or> c = CHR ''?'')"

definition isCapital :: "char \<Rightarrow> bool" where
  "isCapital c = (65 \<le> (of_char c :: nat) \<and> (of_char c :: nat) \<le> 90)"

section \<open>StreamingTTSManager: the text chunker\<close>

text \<open>
  \<open>text.split(/(?<=[.!?])\s+(?=[A-Z])/g)\<close>. A match is a maximal run of white space
  that comes right after one of \<open>.\<close>, \<open>!\<close>, \<open>?\<close> and right before a capital letter
  (the run is greedy, and a shorter run would be followed by white space, not by a
  capital). The pieces between the matches are returned, the runs themselves dropped.

  \<open>splitScan cur pend cs\<close> reads the rest \<open>cs\<close> of the text: \<open>cur\<close> is the piece read
  so far, reversed, so that its head is the character before the current position;
  \<open>pend\<close> is the white-space run being read after a sentence end, reversed.
\<close>

fun splitScan :: "string \<Rightarrow> string option \<Rightarrow> string \<Rightarrow> string list" where
  "splitScan cur None [] = [rev cur]"
| "splitScan cur (Some ws) [] = [rev (ws @ cur)]"
| "splitScan cur None (c # cs) =
     (if isSpace c \<and> cur \<noteq> [] \<and> isSentenceEnd (hd cur)
      then splitScan cur (Some [c]) cs
      else splitScan (c # cur) None cs)"
| "splitScan cur (Some ws) (c # cs) =
     (if isSpace c then splitScan cur (Some (c # ws)) cs
      else if isCapital c then rev cur # splitScan [c] None cs
      else splitScan (c # ws @ cur) None cs)"

definition splitOnSentencePattern :: "string \<Rightarrow> string list" where
  "splitOnSentencePattern t = splitScan [] None t"

definition minChunkLength :: nat where
  "minChunkLength = 100"

text \<open>
  The \<open>for (const sentence of rawSentences)\<close> loop, with its two variables
  \<open>combined\<close> and \<open>currentChunk\<close>.
\<close>

definition combineStep :: "string list \<times> string \<Rightarrow> string \<Rightarrow> string list \<times> string" where
  "combineStep st sentence =
     (case st of (combined, currentChunk) \<Rightarrow>
        if trim sentence = [] then (combined, currentChunk)
        else if length currentChunk = 0 then (combined, trim sentence)
        else if length currentChunk + length (trim sentence) < minChunkLength * 2
          then (combined, currentChunk @ '' '' @ trim sentence)
        else if minChunkLength \<le> length currentChunk
          then (combined @ [currentChunk], trim sentence)
        else (combined, currentChunk @ '' '' @ trim sentence))"

fun combineLoop :: "string list \<times> string \<Rightarrow> string list \<Rightarrow> string list \<times> string" where
  "combineLoop st [] = st"
| "combineLoop st (sentence # rest) = combineLoop (combineStep st sentence) rest"

definition splitIntoSentences :: "string \<Rightarrow> string list" where
  "splitIntoSentences t =
     (if length t < 200 then [trim t]
      else
        let rawSentences = splitOnSentencePattern t;
            (combined, currentChunk) = combineLoop ([], []) rawSentences;
            combined' = (if trim currentChunk \<noteq> [] then combined @ [trim currentChunk]
                         else combined)
        in if length combined' = 0 then [trim t] else combined')"

text \<open>A response of 272 characters in five sentences, used as a concrete input below.\<close>

definition sampleResponse :: string where
  "sampleResponse = ''The quick brown fox jumps over the lazy dog and keeps running through the forest until night falls. Then it rests beside the river for a while. After that the fox wakes up early and goes hunting again in the cold morning air of the valley. It is a long day. The end comes.''"

section \<open>AudioPlayer: the resampler\<close>

text \<open>
  \<open>resampleChannel(input: Float32Array, inputRate, outputRate)\<close>. Samples and rates
  are modelled as real numbers, so the arithmetic is exact; the source computes in
  floating point and rounds each result to single precision, and its samples can also be
  infinite or NaN.

  A rate of 0 is written out. With \<open>outputRate = 0\<close> the ratio is infinite or NaN and
  \<open>Math.floor(input.length / ratio)\<close> is 0 or NaN, which \<open>new Float32Array\<close> takes as
  length 0. With a ratio of 0 and a non-empty input the length is infinite, with a
  negative ratio it is negative, and \<open>new Float32Array\<close> throws a RangeError.
\<close>

datatype js_error = RangeError

definition interpolate :: "real list \<Rightarrow> real \<Rightarrow> nat \<Rightarrow> real" where
  "interpolate input ratio i =
     (let srcIndex = real i * ratio;
          srcIndexFloor = \<lfloor>srcIndex\<rfloor>;
          srcIndexCeil = min (srcIndexFloor + 1) (int (length input) - 1);
          fraction = srcIndex - real_of_int srcIndexFloor
      in input ! nat srcIndexFloor * (1 - fraction) + input ! nat srcIndexCeil * fraction)"

definition resampleChannel :: "real list \<Rightarrow> real \<Rightarrow> real \<Rightarrow> js_error + real list" where
  "resampleChannel input inputRate outputRate =
     (if outputRate = 0 then Inr []
      else
        let ratio = inputRate / outputRate in
        if ratio = 0 then (if input = [] then Inr [] else Inl RangeError)
        else if \<lfloor>real (length input) / ratio\<rfloor> < 0 then Inl RangeError
        else
          let outputLength = nat \<lfloor>real (length input) / ratio\<rfloor>
          in Inr (map (interpolate input ratio) [0..<outputLength]))"

section \<open>VoiceBridgeServer: sessions and the permission queue\<close>

text \<open>
  \<open>toLowerCase\<close> on Latin-1: the capitals A to Z and the accented capitals 192 to 222
  (but not the multiplication sign 215) move up by 32.
\<close>

definition lowerChar :: "char \<Rightarrow> char" where
  "lowerChar c =
     (let n = (of_char c :: nat)
      in if (65 \<le> n \<and> n \<le> 90) \<or> (192 \<le> n \<and> n \<le> 222 \<and> n \<noteq> 215)
         then char_of (n + 32) else c)"

definition toLowerCase :: "string \<Rightarrow> string" where
  "toLowerCase s = map lowerChar s"

text \<open>
  \<open>toUpperCase\<close> on Latin-1, the characters 0 to 255 that a string holds here: the
  letters a to z and the accented letters 224 to 254 (but not the division sign 247) move
  down by 32, and the sharp s, 223, becomes the two letters SS. The capitals of the micro
  sign, 181, and of the y with diaeresis, 255, lie outside Latin-1: for a string with one
  of them the result is \<open>None\<close>, a string that cannot be written here and that is the
  code of no session, as the keys of \<open>sessions\<close> are strings of Latin-1 too (the codes
  that \<open>generateSessionCode\<close> makes are drawn from the capitals and the digits).
\<close>

definition upperChar :: "char \<Rightarrow> string option" where
  "upperChar c =
     (let n = (of_char c :: nat)
      in if n = 223 then Some ''SS''
         else if n = 181 \<or> n = 255 then None
         else if (97 \<le> n \<and> n \<le> 122) \<or> (224 \<le> n \<and> n \<le> 254 \<and> n \<noteq> 247)
           then Some [char_of (n - 32)]
         else Some [c])"

fun toUpperCase :: "string \<Rightarrow> string option" where
  "toUpperCase [] = Some []"
| "toUpperCase (c # cs) =
     (case upperChar c of
        None \<Rightarrow> None
      | Some u \<Rightarrow> (case toUpperCase cs of None \<Rightarrow> None | Some r \<Rightarrow> Some (u @ r)))"

fun startsWith :: "string \<Rightarrow> string \<Rightarrow> bool" where
  "startsWith s [] = True"
| "startsWith [] (p # ps) = False"
| "startsWith (c # cs) (p # ps) = (c = p \<and> startsWith cs ps)"

text \<open>\<open>str_includes s phrase\<close> is \<open>s.includes(phrase)\<close>: the phrase occurs in \<open>s\<close>.\<close>

fun str_includes :: "string \<Rightarrow> string \<Rightarrow> bool" where
  "str_includes [] phrase = (phrase = [])"
| "str_includes (c # cs) phrase = (startsWith (c # cs) phrase \<or> str_includes cs phrase)"

definition SESSION_CODE_EXPIRY :: int where
  "SESSION_CODE_EXPIRY = 5 * 60 * 1000"

definition SESSION_TIMEOUT :: int where
  "SESSION_TIMEOUT = 30 * 60 * 1000"

text \<open>
  The events written to a session's push channel. \<open>PermissionHandled\<close> carries
  \<open>id\<close>, \<open>approved\<close> and \<open>remaining\<close>; \<open>PermissionCleared\<close> is the event of the same
  name that \<open>handleAudio\<close> sends with \<open>{handled: true}\<close>.
\<close>

datatype push_event =
    Connected
  | Transcript string
  | PermissionQueue nat "(string \<times> string \<times> string) list"
  | PermissionRequest string string string nat
  | PermissionHandled string bool nat
  | PermissionCleared

text \<open>
  The \<open>http.ServerResponse\<close> of the push channel: whether it has ended, and what was
  written to it.
\<close>

record ServerResponse =
  writableEnded :: bool
  written :: "push_event list"

record Session =
  code :: string
  token :: string
  createdAt :: int
  lastActivity :: int
  connected :: bool
  response :: "ServerResponse option"

record PendingPermission =
  id' :: string
  tool :: string
  prompt :: string

text \<open>
  The server. \<open>sessions\<close> is the \<open>Map\<close> from code to session, kept as the list of its
  entries in insertion order, which is the order its iteration follows.
  \<open>onPermissionResponse\<close> says whether the callback is registered, and
  \<open>permissionResponses\<close> lists the calls made to it; \<open>forwarded\<close> lists the calls of
  \<open>onTranscript\<close>; \<open>showTimers\<close> counts the pending
  \<open>setTimeout(() => this.showCurrentPermission(), 500)\<close>; \<open>synthesized\<close> lists the
  texts handed to \<open>voiceService.synthesize\<close> for permission prompts.
\<close>

record VoiceBridgeServer =
  sessions :: "(string \<times> Session) list"
  currentSessionCode :: "string option"
  pendingPermissions :: "PendingPermission list"
  onPermissionResponse :: bool
  permissionResponses :: "(string \<times> bool \<times> bool) list"
  forwarded :: "string list"
  showTimers :: nat
  synthesized :: "string list"

definition sessions_get :: "VoiceBridgeServer \<Rightarrow> string \<Rightarrow> Session option" where
  "sessions_get b c = map_of (sessions b) c"

fun alist_set :: "(string \<times> Session) list \<Rightarrow> string \<Rightarrow> Session \<Rightarrow> (string \<times> Session) list" where
  "alist_set [] c v = [(c, v)]"
| "alist_set ((k, w) # rest) c v = (if k = c then (k, v) # rest else (k, w) # alist_set rest c v)"

definition sessions_set :: "string \<Rightarrow> Session \<Rightarrow> VoiceBridgeServer \<Rightarrow> VoiceBridgeServer" where
  "sessions_set c v b = b\<lparr>sessions := alist_set (sessions b) c v\<rparr>"

definition sessions_delete :: "string \<Rightarrow> VoiceBridgeServer \<Rightarrow> VoiceBridgeServer" where
  "sessions_delete c b = b\<lparr>sessions := filter (\<lambda>(k, w). k \<noteq> c) (sessions b)\<rparr>"

definition newServer :: VoiceBridgeServer where
  "newServer = \<lparr>sessions = [], currentSessionCode = None, pendingPermissions = [],
     onPermissionResponse = False, permissionResponses = [], forwarded = [],
     showTimers = 0, synthesized = []\<rparr>"

definition setPermissionResponseCallback :: "VoiceBridgeServer \<Rightarrow> VoiceBridgeServer" where
  "setPermissionResponseCallback b = b\<lparr>onPermissionResponse := True\<rparr>"

definition cleanupSessions :: "int \<Rightarrow> VoiceBridgeServer \<Rightarrow> VoiceBridgeServer" where
  "cleanupSessions now b =
     b\<lparr>sessions := filter (\<lambda>(k, s).
        \<not> (\<not> connected s \<and> now - createdAt s > SESSION_CODE_EXPIRY) \<and>
        \<not> (connected s \<and> now - lastActivity s > SESSION_TIMEOUT)) (sessions b)\<rparr>"

text \<open>
  \<open>createSession\<close>: the random code and token are arguments, and so is the time, which
  the clean-up and the new session read at the same instant.
\<close>

definition createSession :: "string \<Rightarrow> string \<Rightarrow> int \<Rightarrow> VoiceBridgeServer \<Rightarrow> VoiceBridgeServer" where
  "createSession c t now b =
     (let b1 = cleanupSessions now b;
          session = \<lparr>code = c, token = t, createdAt = now, lastActivity = now,
                      connected = False, response = None\<rparr>
      in (sessions_set c session b1)\<lparr>currentSessionCode := Some c\<rparr>)"

datatype reply_body =
    ErrorBody string
  | ConnectBody string
  | AudioBody string bool
  | SuccessBody

type_synonym http_reply = "nat \<times> reply_body"

text \<open>
  The body of a \<open>POST /connect\<close>: \<open>Unparsable\<close> is a body on which the handler throws
  (no JSON, or a \<open>sessionCode\<close> that is no string), \<open>SessionCode None\<close> a body without
  the field.
\<close>

datatype connect_body = Unparsable | SessionCode "string option"

definition handleConnect ::
  "connect_body \<Rightarrow> int \<Rightarrow> int \<Rightarrow> VoiceBridgeServer \<Rightarrow> VoiceBridgeServer \<times> http_reply" where
  "handleConnect body nowCheck nowActivity b =
     (case body of
        Unparsable \<Rightarrow> (b, (400, ErrorBody ''Invalid request''))
      | SessionCode None \<Rightarrow> (b, (400, ErrorBody ''Session code required''))
      | SessionCode (Some sc) \<Rightarrow>
          (case toUpperCase sc of
             None \<Rightarrow> (b, (404, ErrorBody ''Invalid or expired session code''))
           | Some c \<Rightarrow>
               if c = [] then (b, (400, ErrorBody ''Session code required''))
               else
                 (case sessions_get b c of
                    None \<Rightarrow> (b, (404, ErrorBody ''Invalid or expired session code''))
                  | Some session \<Rightarrow>
                      if \<not> connected session \<and>
                         nowCheck - createdAt session > SESSION_CODE_EXPIRY
                      then (sessions_delete c b, (410, ErrorBody ''Session code has expired''))
                      else
                        (sessions_set c
                           (session\<lparr>connected := True, lastActivity := nowActivity\<rparr>) b,
                         (200, ConnectBody (token session))))))"

text \<open>\<open>this.sessions.get(code)\<close> for the code in capitals.\<close>

definition lookupCode :: "VoiceBridgeServer \<Rightarrow> string \<Rightarrow> Session option" where
  "lookupCode b sc = (case toUpperCase sc of None \<Rightarrow> None | Some c \<Rightarrow> sessions_get b c)"

definition findSessionByToken :: "string option \<Rightarrow> VoiceBridgeServer \<Rightarrow> Session option" where
  "findSessionByToken tok b =
     map_option snd (find (\<lambda>(k, s). Some (token s) = tok \<and> connected s) (sessions b))"

text \<open>\<open>handleSSE\<close>: a valid token attaches a fresh push channel to its session.\<close>

definition handleSSE :: "string option \<Rightarrow> VoiceBridgeServer \<Rightarrow> VoiceBridgeServer \<times> nat" where
  "handleSSE tok b =
     (case findSessionByToken tok b of
        None \<Rightarrow> (b, 401)
      | Some session \<Rightarrow>
          (sessions_set (code session)
             (session\<lparr>response := Some \<lparr>writableEnded = False, written = [Connected]\<rparr>\<rparr>) b, 200))"

definition sendToSession :: "string \<Rightarrow> push_event \<Rightarrow> VoiceBridgeServer \<Rightarrow> VoiceBridgeServer" where
  "sendToSession c ev b =
     (case sessions_get b c of
        None \<Rightarrow> b
      | Some session \<Rightarrow>
          (case response session of
             None \<Rightarrow> b
           | Some r \<Rightarrow>
               if writableEnded r then b
               else sessions_set c (session\<lparr>response := Some (r\<lparr>written := written r @ [ev]\<rparr>)\<rparr>) b))"

text \<open>The session the server currently talks to, when its code is set and not empty.\<close>

definition currentCode :: "VoiceBridgeServer \<Rightarrow> string option" where
  "currentCode b = (case currentSessionCode b of None \<Rightarrow> None
                    | Some c \<Rightarrow> if c = [] then None else Some c)"

definition showCurrentPermission :: "VoiceBridgeServer \<Rightarrow> VoiceBridgeServer" where
  "showCurrentPermission b =
     (case (pendingPermissions b, currentCode b) of
        (current # rest, Some c) \<Rightarrow>
          (sendToSession c (PermissionRequest (id' current) (tool current) (prompt current)
               (length (pendingPermissions b))) b)
            \<lparr>synthesized := synthesized b @ [prompt current @ ''. Say yes or no.'']\<rparr>
      | _ \<Rightarrow> b)"

definition sendPermissionRequest :: "PendingPermission \<Rightarrow> VoiceBridgeServer \<Rightarrow> VoiceBridgeServer" where
  "sendPermissionRequest request b =
     (case currentCode b of
        None \<Rightarrow> b
      | Some c \<Rightarrow>
          (case sessions_get b c of
             None \<Rightarrow> b
           | Some session \<Rightarrow>
               if \<not> connected session then b
               else
                 let b1 = b\<lparr>pendingPermissions := pendingPermissions b @ [request]\<rparr>;
                     b2 = sendToSession c (PermissionQueue (length (pendingPermissions b1))
                            (map (\<lambda>p. (id' p, tool p, prompt p)) (pendingPermissions b1))) b1
                 in if length (pendingPermissions b2) = 1 then showCurrentPermission b2 else b2))"

text \<open>
  \<open>findIndex(p => p.id === requestId)\<close> followed by \<open>splice(index, 1)\<close>: the first entry
  with that id is removed, and nothing is when there is none.
\<close>

fun removeById :: "string \<Rightarrow> PendingPermission list \<Rightarrow> PendingPermission list" where
  "removeById rid [] = []"
| "removeById rid (p # ps) = (if id' p = rid then ps else p # removeById rid ps)"

definition handlePermissionAndAdvance ::
  "string \<Rightarrow> bool \<Rightarrow> bool \<Rightarrow> VoiceBridgeServer \<Rightarrow> VoiceBridgeServer" where
  "handlePermissionAndAdvance requestId approved alwaysAllow b =
     (let b1 = b\<lparr>pendingPermissions := removeById requestId (pendingPermissions b)\<rparr>;
          b2 = (if onPermissionResponse b1
                then b1\<lparr>permissionResponses :=
                          permissionResponses b1 @ [(requestId, approved, alwaysAllow)]\<rparr>
                else b1)
      in case currentCode b2 of
           None \<Rightarrow> b2
         | Some c \<Rightarrow>
             let b3 = sendToSession c
                        (PermissionHandled requestId approved (length (pendingPermissions b2))) b2
             in if length (pendingPermissions b3) > 0
                then b3\<lparr>showTimers := showTimers b3 + 1\<rparr> else b3)"

definition alwaysAllowPhrases :: "string list" where
  "alwaysAllowPhrases = [''always allow'', ''always yes'', ''allow always'', ''always approve'']"

definition allowAllPhrases :: "string list" where
  "allowAllPhrases = [''allow all'', ''yes to all'', ''approve all'', ''accept all'']"

definition denyAllPhrases :: "string list" where
  "denyAllPhrases = [''deny all'', ''no to all'', ''reject all'', ''cancel all'']"

definition approvalPhrases :: "string list" where
  "approvalPhrases = [''yes'', ''yeah'', ''yep'', ''approve'', ''allow'', ''go ahead'',
     ''do it'', ''okay'', ''ok'']"

definition denialPhrases :: "string list" where
  "denialPhrases = [''no'', ''nope'', ''deny'', ''stop'', ''cancel'', ''don'' @ [CHR 39] @ ''t'',
     ''reject'']"

text \<open>\<open>phrases.some(phrase => lower.includes(phrase))\<close> on the lowered, trimmed transcript.\<close>

definition matches :: "string list \<Rightarrow> string \<Rightarrow> bool" where
  "matches phrases transcript =
     list_ex (\<lambda>phrase. str_includes (trim (toLowerCase transcript)) phrase) phrases"

definition resolveAll :: "bool \<Rightarrow> string list \<Rightarrow> VoiceBridgeServer \<Rightarrow> VoiceBridgeServer" where
  "resolveAll approved allIds b =
     fold (\<lambda>i. handlePermissionAndAdvance i approved False) allIds b"

definition checkForPermissionResponse ::
  "string \<Rightarrow> VoiceBridgeServer \<Rightarrow> bool \<times> VoiceBridgeServer" where
  "checkForPermissionResponse transcript b =
     (case pendingPermissions b of
        [] \<Rightarrow> (False, b)
      | current # rest \<Rightarrow>
          let isAlwaysAllow = matches alwaysAllowPhrases transcript;
              isAllowAll = matches allowAllPhrases transcript;
              isDenyAll = matches denyAllPhrases transcript;
              isApproval = matches approvalPhrases transcript;
              isDenial = matches denialPhrases transcript
          in if isAllowAll
               then (True, resolveAll True (map id' (pendingPermissions b)) b)
             else if isDenyAll
               then (True, resolveAll False (map id' (pendingPermissions b)) b)
             else if isAlwaysAllow
               then (True, handlePermissionAndAdvance (id' current) True True b)
             else if isApproval \<and> \<not> isDenial
               then (True, handlePermissionAndAdvance (id' current) True False b)
             else if isDenial \<and> \<not> isApproval
               then (True, handlePermissionAndAdvance (id' current) False False b)
             else (False, b))"

text \<open>
  \<open>handleAudio\<close>. The request carries the token header and a body, which is the
  audio with its MIME type, or \<open>Inl\<close> the message of the error that parsing it or
  decoding its audio throws; the result of the transcription collaborator is an
  argument as well, \<open>Inl\<close> the message of the error it failed with.
\<close>

definition handleAudio ::
  "string option \<Rightarrow> (string + nat list \<times> string) \<Rightarrow> (string + string) \<Rightarrow> int \<Rightarrow>
   VoiceBridgeServer \<Rightarrow> VoiceBridgeServer \<times> http_reply" where
  "handleAudio tok body transcribed now b =
     (case findSessionByToken tok b of
        None \<Rightarrow> (b, (401, ErrorBody ''Invalid or expired session''))
      | Some validSession \<Rightarrow>
          let b1 = sessions_set (code validSession) (validSession\<lparr>lastActivity := now\<rparr>) b in
          (case body of
             Inl message \<Rightarrow> (b1, (500, ErrorBody message))
           | Inr (audio, mimeType) \<Rightarrow>
               (case transcribed of
                  Inl message \<Rightarrow> (b1, (500, ErrorBody message))
                | Inr transcript \<Rightarrow>
                    let b2 = sendToSession (code validSession) (Transcript transcript) b1
                    in (case checkForPermissionResponse transcript b2 of
                          (True, b3) \<Rightarrow>
                            (sendToSession (code validSession) PermissionCleared b3,
                             (200, AudioBody transcript True))
                        | (False, b3) \<Rightarrow>
                            (b3\<lparr>forwarded := forwarded b3 @ [transcript]\<rparr>,
                             (200, AudioBody transcript False))))))"

text \<open>
  \<open>handlePermission\<close>, the button path. The body gives \<open>requestId\<close>, \<open>approved\<close> and
  \<open>alwaysAllow\<close> (absent is \<open>false\<close>); \<open>None\<close> is a body that does not parse.
\<close>

definition handlePermission ::
  "string option \<Rightarrow> (string \<times> bool \<times> bool option) option \<Rightarrow>
   VoiceBridgeServer \<Rightarrow> VoiceBridgeServer \<times> http_reply" where
  "handlePermission tok body b =
     (case findSessionByToken tok b of
        None \<Rightarrow> (b, (401, ErrorBody ''Invalid or expired session''))
      | Some validSession \<Rightarrow>
          (case body of
             None \<Rightarrow> (b, (400, ErrorBody ''Invalid request''))
           | Some (requestId, approved, alwaysAllow) \<Rightarrow>
               (handlePermissionAndAdvance requestId approved
                  (case alwaysAllow of None \<Rightarrow> False | Some a \<Rightarrow> a) b,
                (200, SuccessBody))))"

text \<open>Concrete servers, used as inputs below: two with a fresh session, a paired one, and one
  with two requests queued.\<close>

definition freshServer :: VoiceBridgeServer where
  "freshServer = createSession ''ABC234'' ''t0ken'' 0 newServer"

definition sharpServer :: VoiceBridgeServer where
  "sharpServer = createSession ''ABCDSS'' ''s3cret'' 0 newServer"

definition pairedServer :: VoiceBridgeServer where
  "pairedServer =
     fst (handleSSE (Some ''t0ken'')
       (fst (handleConnect (SessionCode (Some ''abc234'')) 1000 1001
          (createSession ''ABC234'' ''t0ken'' 0 (setPermissionResponseCallback newServer)))))"

definition queuedServer :: VoiceBridgeServer where
  "queuedServer =
     sendPermissionRequest \<lparr>id' = ''p2'', tool = ''Write'', prompt = ''Write a file''\<rparr>
       (sendPermissionRequest \<lparr>id' = ''p1'', tool = ''Bash'', prompt = ''Run a command''\<rparr>
          pairedServer)"

section \<open>StreamingTTSManager: the scheduler\<close>

text \<open>
  The statuses of \<open>TTSQueueItem\<close> and \<open>AudioQueueItem\<close>: the first has no \<open>decoding\<close>
  and no \<open>paused\<close>, the second no \<open>generating\<close>. \<open>PlaybackState\<close> is shared as well; the
  player never is in \<open>StateGenerating\<close>.
\<close>

datatype item_status =
  Pending | Generating | Decoding | Ready | Playing | Paused | Completed | Cancelled

datatype PlaybackState = Idle | StateGenerating | StatePlaying | StatePaused | Stopped

type_synonym buffer = "nat list"

text \<open>
  The \<open>id\<close> of a \<open>TTSQueueItem\<close> is made from the time and the item's index; the model
  identifies an item by its index in the queue.
\<close>

record TTSQueueItem =
  text' :: string
  audioBuffer :: "buffer option"
  status :: item_status

datatype promise = Unsettled | Settled

datatype target = Browser | LocalPlayer

text \<open>
  What the loop hands to a playback target: \<open>onBrowserAudio(base64, text, isLast)\<close> for
  the browser bridge, \<open>player.addToQueue(audioBuffer, text)\<close> for the local player.
\<close>

datatype handoff =
  Handoff (h_target: target) (h_index: nat) (h_text: string) (h_audio: buffer) (h_isLast: bool)

text \<open>
  Where \<open>playbackLoop\<close> is suspended: at the \<open>await\<close> of the cursor item's synthesis,
  at the \<open>await\<close> of \<open>player.addToQueue\<close>, or not at all because it has returned.
\<close>

datatype loop_pc = AwaitGenerate | AwaitPlayer | Returned

text \<open>
  The manager. \<open>generatePromises\<close> maps an item to the state of its synthesis call;
  \<open>handed\<close> lists the hand-overs to a playback target in the order they were made;
  \<open>completes\<close> counts the calls of \<open>onComplete\<close>. The model follows one stream
  that is left to run: \<open>pause\<close>, \<open>stop\<close>, \<open>interrupt\<close> and \<open>skipCurrent\<close> are not called,
  so \<open>isPaused\<close> stays false and the pause wait of the loop is left out.
\<close>

record StreamingTTSManager =
  queue :: "TTSQueueItem list"
  state :: PlaybackState
  currentIndex :: nat
  isStopped :: bool
  generatePromises :: "nat \<Rightarrow> promise option"
  pc :: loop_pc
  handed :: "handoff list"
  completes :: nat

definition setStatus :: "nat \<Rightarrow> item_status \<Rightarrow> StreamingTTSManager \<Rightarrow> StreamingTTSManager" where
  "setStatus i st m = m\<lparr>queue := (queue m)[i := (queue m ! i)\<lparr>status := st\<rparr>]\<rparr>"

definition startGenerating :: "nat \<Rightarrow> StreamingTTSManager \<Rightarrow> StreamingTTSManager" where
  "startGenerating i m =
     (if length (queue m) \<le> i then m
      else if status (queue m ! i) \<noteq> Pending then m
      else (setStatus i Generating m)\<lparr>generatePromises := (generatePromises m)(i \<mapsto> Unsettled)\<rparr>)"

text \<open>
  The synthesis call of item \<open>i\<close> settles: with \<open>Some buffer\<close> the \<open>then\<close> callback
  runs, with \<open>None\<close> the \<open>catch\<close> callback. Nothing happens when no call of item \<open>i\<close> is
  outstanding.
\<close>

definition synthesisSettled ::
  "nat \<Rightarrow> buffer option \<Rightarrow> StreamingTTSManager \<Rightarrow> StreamingTTSManager" where
  "synthesisSettled i result m =
     (if generatePromises m i \<noteq> Some Unsettled \<or> length (queue m) \<le> i then m
      else
        let m1 = m\<lparr>generatePromises := (generatePromises m)(i \<mapsto> Settled)\<rparr>
        in case result of
             Some buffer \<Rightarrow>
               if \<not> isStopped m1
               then m1\<lparr>queue := (queue m1)[i := (queue m1 ! i)\<lparr>audioBuffer := Some buffer,
                                                                  status := Ready\<rparr>]\<rparr>
               else m1
           | None \<Rightarrow> setStatus i Cancelled m1)"

text \<open>After the \<open>while\<close> loop of \<open>playbackLoop\<close>.\<close>

definition finishLoop :: "StreamingTTSManager \<Rightarrow> StreamingTTSManager" where
  "finishLoop m =
     m\<lparr>state := Idle,
       completes := (if \<not> isStopped m then completes m + 1 else completes m),
       pc := Returned\<rparr>"

datatype outcome = Suspended | NextIteration | Broke

text \<open>
  One iteration of the loop from the line after the wait for the cursor item:
  the \<open>break\<close> on a stopped manager or a cancelled item, the look-ahead of two items,
  and the hand-over of the item when it is ready. \<open>browser\<close> is
  \<open>browserConnected && this.options.onBrowserAudio\<close>. The browser path runs to the end
  of the iteration; the local path is suspended at \<open>await player.addToQueue\<close>.
\<close>

definition afterGenerate :: "bool \<Rightarrow> StreamingTTSManager \<Rightarrow> StreamingTTSManager \<times> outcome" where
  "afterGenerate browser m =
     (let i = currentIndex m in
      if isStopped m \<or> status (queue m ! i) = Cancelled then (m, Broke)
      else
        let m1 = (if i + 1 < length (queue m) \<and> status (queue m ! (i + 1)) = Pending
                  then startGenerating (i + 1) m else m);
            m2 = (if i + 2 < length (queue m1) \<and> status (queue m1 ! (i + 2)) = Pending
                  then startGenerating (i + 2) m1 else m1);
            item = queue m2 ! i
        in case audioBuffer item of
             None \<Rightarrow> (m2, NextIteration)
           | Some buf \<Rightarrow>
               if status item \<noteq> Ready then (m2, NextIteration)
               else
                 let m3 = (setStatus i Playing m2)\<lparr>state := StatePlaying\<rparr>;
                     isLast = (int i = int (length (queue m3)) - 1)
                 in if browser
                    then (setStatus i Completed
                            (m3\<lparr>handed := handed m3 @ [Handoff Browser i (text' item) buf isLast]\<rparr>),
                          NextIteration)
                    else (m3\<lparr>handed := handed m3 @ [Handoff LocalPlayer i (text' item) buf isLast],
                             pc := AwaitPlayer\<rparr>,
                          Suspended))"

lemma afterGenerate_same:
  "length (queue (fst (afterGenerate browser m))) = length (queue m) \<and>
   currentIndex (fst (afterGenerate browser m)) = currentIndex m"
  by (simp add: afterGenerate_def Let_def startGenerating_def setStatus_def
      split: option.splits)

lemma afterGenerate_eqD:
  "(m', oc) = afterGenerate browser m \<Longrightarrow>
   length (queue m') = length (queue m) \<and> currentIndex m' = currentIndex m"
  using afterGenerate_same [of browser m] by (cases "afterGenerate browser m") simp

text \<open>
  \<open>playbackLoop\<close> from the head of the \<open>while\<close> loop up to the next \<open>await\<close> or the
  return. An item that is pending or generating is awaited (and started first when it
  has no synthesis call yet); otherwise the iteration goes on at once.
\<close>

function runLoop :: "bool \<Rightarrow> StreamingTTSManager \<Rightarrow> StreamingTTSManager" where
  "runLoop browser m =
     (if currentIndex m < length (queue m) \<and> \<not> isStopped m then
        (if status (queue m ! currentIndex m) = Pending \<or>
            status (queue m ! currentIndex m) = Generating
         then (case generatePromises m (currentIndex m) of
                 Some p \<Rightarrow> m\<lparr>pc := AwaitGenerate\<rparr>
               | None \<Rightarrow> (startGenerating (currentIndex m) m)\<lparr>pc := AwaitGenerate\<rparr>)
         else (case afterGenerate browser m of
                 (m', Suspended) \<Rightarrow> m'
               | (m', Broke) \<Rightarrow> finishLoop m'
               | (m', NextIteration) \<Rightarrow>
                   runLoop browser (m'\<lparr>currentIndex := currentIndex m' + 1\<rparr>)))
      else finishLoop m)"
  by pat_completeness auto
termination
  by (relation "measure (\<lambda>(browser, m). length (queue m) - currentIndex m)")
    (auto dest: afterGenerate_eqD)

declare runLoop.simps [simp del]

text \<open>The loop resumes after the wait for the cursor item's synthesis.\<close>

definition resumeAfterGenerate :: "bool \<Rightarrow> StreamingTTSManager \<Rightarrow> StreamingTTSManager" where
  "resumeAfterGenerate browser m =
     (case afterGenerate browser m of
        (m', Suspended) \<Rightarrow> m'
      | (m', Broke) \<Rightarrow> finishLoop m'
      | (m', NextIteration) \<Rightarrow> runLoop browser (m'\<lparr>currentIndex := currentIndex m' + 1\<rparr>))"

text \<open>The loop resumes after \<open>await player.addToQueue\<close>.\<close>

definition resumeAfterPlayer :: "bool \<Rightarrow> StreamingTTSManager \<Rightarrow> StreamingTTSManager" where
  "resumeAfterPlayer browser m =
     runLoop browser ((setStatus (currentIndex m) Completed m)\<lparr>currentIndex := currentIndex m + 1\<rparr>)"

text \<open>
  \<open>streamText\<close> on a manager that is not streaming: after the \<open>stop\<close> and the reset
  that open it, the queue is made from the chunks, the first two synthesis calls are
  started, and the loop runs up to its first \<open>await\<close>. Without chunks it returns
  before the loop, in the idle state \<open>stop\<close> has left.
\<close>

definition streamSentences :: "bool \<Rightarrow> string list \<Rightarrow> StreamingTTSManager" where
  "streamSentences browser sentences =
     (if length sentences = 0
      then \<lparr>queue = [], state = Idle, currentIndex = 0, isStopped = False,
             generatePromises = (\<lambda>i. None), pc = Returned, handed = [], completes = 0\<rparr>
      else
        let m0 = \<lparr>queue = map (\<lambda>sentence. \<lparr>text' = sentence, audioBuffer = None,
                                                status = Pending\<rparr>) sentences,
                  state = StateGenerating, currentIndex = 0, isStopped = False,
                  generatePromises = (\<lambda>i. None), pc = AwaitGenerate, handed = [],
                  completes = 0\<rparr>;
            m1 = startGenerating 0 m0;
            m2 = (if length sentences > 1 then startGenerating 1 m1 else m1)
        in runLoop browser m2)"

definition streamText :: "bool \<Rightarrow> string \<Rightarrow> StreamingTTSManager" where
  "streamText browser t = streamSentences browser (splitIntoSentences t)"

text \<open>
  What can happen while the stream runs: a synthesis call settles, or the suspended loop
  is resumed (which does nothing while the call it waits for is outstanding). The
  argument of \<open>Resume\<close> is the answer of \<open>isBrowserConnected\<close> at that moment.
\<close>

datatype event = SynthesisDone nat "buffer option" | Resume bool

fun step :: "event \<Rightarrow> StreamingTTSManager \<Rightarrow> StreamingTTSManager" where
  "step (SynthesisDone i result) m = synthesisSettled i result m"
| "step (Resume browser) m =
     (case pc m of
        AwaitGenerate \<Rightarrow>
          if generatePromises m (currentIndex m) = Some Unsettled then m
          else resumeAfterGenerate browser m
      | AwaitPlayer \<Rightarrow> resumeAfterPlayer browser m
      | Returned \<Rightarrow> m)"

fun run :: "event list \<Rightarrow> StreamingTTSManager \<Rightarrow> StreamingTTSManager" where
  "run [] m = m"
| "run (e # es) m = run es (step e m)"

text \<open>A response of three chunks.\<close>

definition longResponse :: string where
  "longResponse = sampleResponse @ '' Nobody knows what the fox will do on the next day, but the river keeps flowing and the forest stays quiet. Perhaps it will simply sleep.''"

text \<open>
  The invariant of a running stream. An item at or after the cursor is pending with no
  synthesis call, generating with an outstanding call, or ready (with its audio) or
  cancelled with a settled call.
\<close>

definition ok_item :: "TTSQueueItem \<Rightarrow> promise option \<Rightarrow> bool" where
  "ok_item x p \<longleftrightarrow>
     (status x = Pending \<and> p = None) \<or>
     (status x = Generating \<and> p = Some Unsettled) \<or>
     (status x = Ready \<and> audioBuffer x \<noteq> None \<and> p = Some Settled) \<or>
     (status x = Cancelled \<and> p = Some Settled)"

text \<open>
  \<open>inv_at ts F playing m\<close>: the chunks of the stream are \<open>ts\<close>; the items before the
  cursor are completed; with \<open>playing\<close> the cursor item has been handed over and is
  playing; the items after are as \<open>ok_item\<close> says; the hand-overs made so far are those
  of the items \<open>0, 1, ...\<close> up to the cursor, in this order; the items in \<open>F\<close> are
  cancelled.
\<close>

definition handedCount :: "bool \<Rightarrow> StreamingTTSManager \<Rightarrow> nat" where
  "handedCount playing m = (if playing then Suc (currentIndex m) else currentIndex m)"

definition inv_at :: "string list \<Rightarrow> nat set \<Rightarrow> bool \<Rightarrow> StreamingTTSManager \<Rightarrow> bool" where
  "inv_at ts F playing m \<longleftrightarrow>
     map text' (queue m) = ts \<and>
     \<not> isStopped m \<and>
     currentIndex m \<le> length (queue m) \<and>
     (\<forall>j < currentIndex m. status (queue m ! j) = Completed \<and>
        generatePromises m j \<noteq> Some Unsettled) \<and>
     (playing \<longrightarrow> currentIndex m < length (queue m) \<and>
        status (queue m ! currentIndex m) = Playing \<and>
        generatePromises m (currentIndex m) \<noteq> Some Unsettled) \<and>
     (\<forall>j < length (queue m). handedCount playing m \<le> j \<longrightarrow>
        ok_item (queue m ! j) (generatePromises m j)) \<and>
     map h_index (handed m) = [0..<handedCount playing m] \<and>
     map h_text (handed m) = take (handedCount playing m) ts \<and>
     (\<forall>k \<in> F. k < length (queue m) \<and> status (queue m ! k) = Cancelled)"

definition Inv :: "string list \<Rightarrow> nat set \<Rightarrow> StreamingTTSManager \<Rightarrow> bool" where
  "Inv ts F m \<longleftrightarrow>
     inv_at ts F (pc m = AwaitPlayer) m \<and>
     (pc m = AwaitGenerate \<longrightarrow>
        currentIndex m < length (queue m) \<and> generatePromises m (currentIndex m) \<noteq> None) \<and>
     (pc m = Returned \<longrightarrow>
        currentIndex m = length (queue m) \<or> status (queue m ! currentIndex m) = Cancelled)"

text \<open>Every change of an item and its synthesis call is an instance of \<open>updItem\<close>.\<close>

definition updItem ::
  "nat \<Rightarrow> TTSQueueItem \<Rightarrow> promise option \<Rightarrow> StreamingTTSManager \<Rightarrow> StreamingTTSManager" where
  "updItem i x p m = m\<lparr>queue := (queue m)[i := x], generatePromises := (generatePromises m)(i := p)\<rparr>"



section \<open>AudioPlayer: the playback queue\<close>

text \<open>
  An \<open>AudioQueueItem\<close>. The fields that \<open>TTSQueueItem\<close> has as well carry a prime.
  Items are objects that the queue, the player's \<open>currentItem\<close> and the closures of
  running calls all refer to, so the player keeps them in a store, \<open>items\<close>, and
  refers to them by their reference, a number; an item's \<open>id\<close> is unique, and comparing
  ids is comparing references.
\<close>

record AudioQueueItem =
  audioBuffer' :: buffer
  pcmData :: "buffer option"
  sampleRate :: "nat option"
  channels :: "nat option"
  itemText :: "string option"
  status' :: item_status

text \<open>
  A frame written to the output stream: its bytes with the volume they are scaled by,
  or silence of that many bytes.
\<close>

datatype frame = Samples buffer real | Silence nat

text \<open>
  The player. \<open>writeInterval\<close> is the handle the player holds of the timer of
  \<open>playItem\<close>, named by the item the timer's callback was made for; \<open>timers\<close> lists
  the timers that are running. \<open>awaitingDecode\<close> and \<open>awaitingPlay\<close> list the calls of
  \<open>processQueue\<close> that are suspended at \<open>await this.decodeMP3\<close> and at
  \<open>await this.playItem\<close>, by their item. \<open>frames\<close> lists the frames written,
  \<open>playStarts\<close> the calls of \<open>onPlayStart\<close>, and \<open>completeCalls\<close> counts the calls of
  \<open>onComplete\<close>.
\<close>

record AudioPlayer =
  items :: "nat \<Rightarrow> AudioQueueItem"
  allocated :: nat
  queue' :: "nat list"
  currentIndex' :: int
  state' :: PlaybackState
  volume :: real
  isMuted :: bool
  isProcessingQueue :: bool
  rtAudio :: bool
  streamOpen :: bool
  currentItem :: "nat option"
  pcmOffset :: nat
  writeInterval :: "nat option"
  timers :: "nat list"
  awaitingDecode :: "nat list"
  awaitingPlay :: "nat list"
  frames :: "frame list"
  playStarts :: "nat list"
  completeCalls :: nat

definition frameSize :: nat where
  "frameSize = 1024"

definition newPlayer :: AudioPlayer where
  "newPlayer =
     \<lparr>items = (\<lambda>r. \<lparr>audioBuffer' = [], pcmData = None, sampleRate = None, channels = None,
                       itemText = None, status' = Pending\<rparr>),
      allocated = 0, queue' = [], currentIndex' = 0, state' = Idle, volume = 1, isMuted = False,
      isProcessingQueue = False, rtAudio = False, streamOpen = False, currentItem = None,
      pcmOffset = 0, writeInterval = None, timers = [], awaitingDecode = [], awaitingPlay = [],
      frames = [], playStarts = [], completeCalls = 0\<rparr>"

definition setItemStatus :: "nat \<Rightarrow> item_status \<Rightarrow> AudioPlayer \<Rightarrow> AudioPlayer" where
  "setItemStatus r st p = p\<lparr>items := (items p)(r := (items p r)\<lparr>status' := st\<rparr>)\<rparr>"

text \<open>\<open>this.queue.indexOf(nextItem)\<close>, for an item that is in the queue.\<close>

fun indexOf :: "nat list \<Rightarrow> nat \<Rightarrow> int" where
  "indexOf [] r = -1"
| "indexOf (x # xs) r = (if x = r then 0 else (if indexOf xs r = -1 then -1 else 1 + indexOf xs r))"

text \<open>
  \<open>processQueue\<close> up to its \<open>await this.decodeMP3\<close>, or to its return when no item
  is pending.
\<close>

definition processQueue :: "AudioPlayer \<Rightarrow> AudioPlayer" where
  "processQueue p =
     (if isProcessingQueue p then p
      else
        (case find (\<lambda>r. status' (items p r) = Pending) (queue' p) of
           None \<Rightarrow>
             let p1 = p\<lparr>isProcessingQueue := False\<rparr>
             in if list_all (\<lambda>r. status' (items p1 r) = Completed \<or>
                                   status' (items p1 r) = Cancelled) (queue' p1)
                then p1\<lparr>state' := Idle, completeCalls := completeCalls p1 + 1\<rparr>
                else p1
         | Some nextItem \<Rightarrow>
             (setItemStatus nextItem Decoding
                (p\<lparr>isProcessingQueue := True, currentIndex' := indexOf (queue' p) nextItem\<rparr>))
               \<lparr>awaitingDecode := awaitingDecode p @ [nextItem]\<rparr>))"

definition addToQueue :: "buffer \<Rightarrow> string option \<Rightarrow> AudioPlayer \<Rightarrow> AudioPlayer" where
  "addToQueue mp3Buffer t p =
     (let item = \<lparr>audioBuffer' = mp3Buffer, pcmData = None, sampleRate = None, channels = None,
                   itemText = t, status' = Pending\<rparr>;
          p1 = p\<lparr>items := (items p)(allocated p := item), allocated := allocated p + 1,
                 queue' := queue' p @ [allocated p]\<rparr>
      in if \<not> isProcessingQueue p1 then processQueue p1 else p1)"

text \<open>
  The rest of \<open>processQueue\<close> after its \<open>try\<close> block: the flag is cleared and
  \<open>processQueue\<close> is called again.
\<close>

definition afterItem :: "AudioPlayer \<Rightarrow> AudioPlayer" where
  "afterItem p = processQueue (p\<lparr>isProcessingQueue := False\<rparr>)"

text \<open>
  \<open>playItem\<close>. Without decoded data or an open stream the item is completed and the
  promise is resolved at once; otherwise the item starts playing, the write timer is
  started, and the caller stays suspended until the timer's callback resolves the
  promise.
\<close>

definition playItem :: "nat \<Rightarrow> AudioPlayer \<Rightarrow> AudioPlayer" where
  "playItem r p =
     (if pcmData (items p r) = None \<or> \<not> rtAudio p \<or> \<not> streamOpen p
      then afterItem (setItemStatus r Completed p)
      else (setItemStatus r Playing (p\<lparr>currentItem := Some r, pcmOffset := 0\<rparr>))
             \<lparr>state' := StatePlaying, playStarts := playStarts p @ [r],
              writeInterval := Some r, timers := timers p @ [r],
              awaitingPlay := awaitingPlay p @ [r]\<rparr>)"

text \<open>
  What the device does when \<open>initStream\<close> opens it: the audio module is missing or its
  constructor throws, \<open>openStream\<close> throws, or the stream opens.
\<close>

datatype device = Unavailable | OpenFails | Opens

definition initStream :: "device \<Rightarrow> AudioPlayer \<Rightarrow> AudioPlayer \<times> bool" where
  "initStream d p =
     (let p1 = (if streamOpen p then p\<lparr>streamOpen := False\<rparr> else p)
      in case d of
           Unavailable \<Rightarrow> (p1, False)
         | OpenFails \<Rightarrow> (p1\<lparr>rtAudio := True\<rparr>, False)
         | Opens \<Rightarrow> (p1\<lparr>rtAudio := True, streamOpen := True\<rparr>, True))"

text \<open>The result of \<open>decodeMP3\<close>: PCM data with its rate and channel count, or an error.\<close>

datatype decoded = Decoded buffer nat nat | DecodeError

text \<open>
  \<open>processQueue\<close> resumes when the decoding of item \<open>r\<close> ends. An error, and a
  stream that does not open, complete the item and move on.
\<close>

definition decodeDone :: "nat \<Rightarrow> decoded \<Rightarrow> device \<Rightarrow> AudioPlayer \<Rightarrow> AudioPlayer" where
  "decodeDone r result d p =
     (if r \<notin> set (awaitingDecode p) then p
      else
        let p0 = p\<lparr>awaitingDecode := remove1 r (awaitingDecode p)\<rparr>
        in case result of
             DecodeError \<Rightarrow> afterItem (setItemStatus r Completed p0)
           | Decoded pcm rate ch \<Rightarrow>
               let p1 = p0\<lparr>items := (items p0)(r := (items p0 r)
                             \<lparr>pcmData := Some pcm, sampleRate := Some rate, channels := Some ch,
                              status' := Ready\<rparr>)\<rparr>
               in case initStream d p1 of
                    (p2, False) \<Rightarrow> afterItem (setItemStatus r Completed p2)
                  | (p2, True) \<Rightarrow> playItem r p2)"

text \<open>
  The promise of \<open>playItem\<close> for item \<open>r\<close> is resolved: the call of \<open>processQueue\<close>
  that awaits it goes on. A second \<open>resolve\<close> does nothing.
\<close>

definition resolvePlay :: "nat \<Rightarrow> AudioPlayer \<Rightarrow> AudioPlayer" where
  "resolvePlay r p =
     (if r \<in> set (awaitingPlay p)
      then afterItem (p\<lparr>awaitingPlay := remove1 r (awaitingPlay p)\<rparr>)
      else p)"

text \<open>\<open>if (this.writeInterval) { clearInterval(this.writeInterval); this.writeInterval = null; }\<close>\<close>

definition clearWriteInterval :: "AudioPlayer \<Rightarrow> AudioPlayer" where
  "clearWriteInterval p =
     (case writeInterval p of
        None \<Rightarrow> p
      | Some h \<Rightarrow> p\<lparr>timers := removeAll h (timers p), writeInterval := None\<rparr>)"

definition bytesPerFrame :: "AudioQueueItem \<Rightarrow> nat" where
  "bytesPerFrame item =
     frameSize * (case channels item of None \<Rightarrow> 2 | Some c \<Rightarrow> if c = 0 then 2 else c) * 2"

text \<open>
  One run of the callback of the write timer made for item \<open>r\<close>, every 10 ms while the
  timer runs. A frame is recorded with the volume it is scaled by.
\<close>

definition tick :: "nat \<Rightarrow> AudioPlayer \<Rightarrow> AudioPlayer" where
  "tick r p =
     (if r \<notin> set (timers p) then p
      else if currentItem p \<noteq> Some r then resolvePlay r (clearWriteInterval p)
      else if state' p = Stopped \<or> status' (items p r) = Cancelled
        then resolvePlay r (setItemStatus r Completed (clearWriteInterval p))
      else if state' p = StatePaused then p
      else
        let pcm = (case pcmData (items p r) of None \<Rightarrow> [] | Some d \<Rightarrow> d);
            n = bytesPerFrame (items p r)
        in if length pcm \<le> pcmOffset p
           then resolvePlay r
                  ((setItemStatus r Completed (clearWriteInterval p))\<lparr>currentItem := None\<rparr>)
           else
             let remaining = length pcm - pcmOffset p;
                 chunk = (if n \<le> remaining then take n (drop (pcmOffset p) pcm)
                          else drop (pcmOffset p) pcm @ replicate (n - remaining) 0);
                 p1 = p\<lparr>pcmOffset := (if n \<le> remaining then pcmOffset p + n else length pcm)\<rparr>
             in p1\<lparr>frames := frames p1 @
                    [if isMuted p1 \<or> volume p1 = 0 then Silence n else Samples chunk (volume p1)]\<rparr>)"

definition pause :: "AudioPlayer \<Rightarrow> AudioPlayer" where
  "pause p =
     (if state' p = StatePlaying
      then (case currentItem p of
              None \<Rightarrow> p\<lparr>state' := StatePaused\<rparr>
            | Some r \<Rightarrow> setItemStatus r Paused (p\<lparr>state' := StatePaused\<rparr>))
      else p)"

definition resume :: "AudioPlayer \<Rightarrow> AudioPlayer" where
  "resume p =
     (if state' p = StatePaused
      then (case currentItem p of
              None \<Rightarrow> p\<lparr>state' := StatePlaying\<rparr>
            | Some r \<Rightarrow> setItemStatus r Playing (p\<lparr>state' := StatePlaying\<rparr>))
      else p)"

text \<open>\<open>for (const item of this.queue) if (item.status !== 'completed') item.status = 'cancelled'\<close>\<close>

fun cancelAll :: "nat list \<Rightarrow> (nat \<Rightarrow> AudioQueueItem) \<Rightarrow> (nat \<Rightarrow> AudioQueueItem)" where
  "cancelAll [] its = its"
| "cancelAll (r # rs) its =
     cancelAll rs (if status' (its r) \<noteq> Completed then its(r := (its r)\<lparr>status' := Cancelled\<rparr>)
                   else its)"

definition stop :: "AudioPlayer \<Rightarrow> AudioPlayer" where
  "stop p =
     (let p1 = clearWriteInterval (p\<lparr>state' := Stopped\<rparr>);
          p2 = p1\<lparr>items := cancelAll (queue' p1) (items p1)\<rparr>
      in p2\<lparr>queue' := [], currentItem := None, pcmOffset := 0, isProcessingQueue := False\<rparr>)"

definition skip :: "AudioPlayer \<Rightarrow> AudioPlayer" where
  "skip p =
     (case currentItem p of
        None \<Rightarrow> p
      | Some r \<Rightarrow>
          (clearWriteInterval (setItemStatus r Cancelled p))\<lparr>currentItem := None, pcmOffset := 0\<rparr>)"

definition setMuted :: "bool \<Rightarrow> AudioPlayer \<Rightarrow> AudioPlayer" where
  "setMuted muted p = p\<lparr>isMuted := muted\<rparr>"

definition setVolume :: "real \<Rightarrow> AudioPlayer \<Rightarrow> AudioPlayer" where
  "setVolume v p = p\<lparr>volume := max 0 (min 1 v)\<rparr>"

text \<open>What can happen to a player: a call of its interface, or a callback that is due.\<close>

datatype player_event =
    AddToQueue buffer "string option"
  | DecodeDone nat decoded device
  | Tick nat
  | Pause
  | ResumePlayback
  | Stop
  | Skip
  | SetMuted bool
  | SetVolume real

fun playerStep :: "player_event \<Rightarrow> AudioPlayer \<Rightarrow> AudioPlayer" where
  "playerStep (AddToQueue mp3Buffer t) p = addToQueue mp3Buffer t p"
| "playerStep (DecodeDone r result d) p = decodeDone r result d p"
| "playerStep (Tick r) p = tick r p"
| "playerStep Pause p = pause p"
| "playerStep ResumePlayback p = resume p"
| "playerStep Stop p = stop p"
| "playerStep Skip p = skip p"
| "playerStep (SetMuted muted) p = setMuted muted p"
| "playerStep (SetVolume v) p = setVolume v p"

fun playerRun :: "player_event list \<Rightarrow> AudioPlayer \<Rightarrow> AudioPlayer" where
  "playerRun [] p = p"
| "playerRun (e # es) p = playerRun es (playerStep e p)"

text \<open>
  A player with two items queued: item 0 is decoded (8 bytes of PCM, one channel) and
  playing, item 1 is pending.
\<close>

definition playingPlayer :: AudioPlayer where
  "playingPlayer =
     playerRun [AddToQueue [1] None, AddToQueue [2] None,
                DecodeDone 0 (Decoded [1, 2, 3, 4, 5, 6, 7, 8] 48000 1) Opens] newPlayer"

text \<open>
  A player in which nothing is under way although \<open>isProcessingQueue\<close> is set: no
  write timer runs and no decoding is outstanding.
\<close>

definition stalled :: "AudioPlayer \<Rightarrow> bool" where
  "stalled p \<longleftrightarrow>
     timers p = [] \<and> awaitingDecode p = [] \<and> isProcessingQueue p \<and>
     currentItem p = None \<and> writeInterval p = None"

section \<open>Properties of the chunker\<close>

lemma combineStep_min:
  "\<forall>c \<in> set (fst st). minChunkLength \<le> length c \<Longrightarrow>
   \<forall>c \<in> set (fst (combineStep st s)). minChunkLength \<le> length c"
  by (cases st) (simp add: combineStep_def)

lemma combineLoop_min:
  "\<forall>c \<in> set (fst st). minChunkLength \<le> length c \<Longrightarrow>
   \<forall>c \<in> set (fst (combineLoop st raw)). minChunkLength \<le> length c"
proof (induction raw arbitrary: st)
  case Nil
  then show ?case by simp
next
  case (Cons s raw)
  have "\<forall>c \<in> set (fst (combineStep st s)). minChunkLength \<le> length c"
    using Cons.prems by (rule combineStep_min)
  then show ?case
    using Cons.IH [of "combineStep st s"] by simp
qed

lemma butlast_snoc_min:
  "\<forall>c \<in> set xs. (n::nat) \<le> length c \<Longrightarrow> \<forall>c \<in> set (butlast (xs @ [y])). n \<le> length c"
  by simp

lemma butlast_min:
  "\<forall>c \<in> set xs. (n::nat) \<le> length c \<Longrightarrow> \<forall>c \<in> set (butlast xs). n \<le> length c"
  by (auto dest: in_set_butlastD)

lemma splitIntoSentences_butlast:
  "\<forall>c \<in> set (butlast (splitIntoSentences t)). minChunkLength \<le> length c"
proof (cases "length t < 200")
  case True
  then show ?thesis by (simp add: splitIntoSentences_def)
next
  case False
  obtain combined cur where cl: "combineLoop ([], []) (splitOnSentencePattern t) = (combined, cur)"
    by (cases "combineLoop ([], []) (splitOnSentencePattern t)")
  have "\<forall>c \<in> set (fst (combineLoop ([], []) (splitOnSentencePattern t))). minChunkLength \<le> length c"
    by (rule combineLoop_min) simp
  with cl have m: "\<forall>c \<in> set combined. minChunkLength \<le> length c"
    by simp
  show ?thesis
  proof (cases "trim cur = []")
    case True
    then have "splitIntoSentences t = (if combined = [] then [trim t] else combined)"
      using False cl by (simp add: splitIntoSentences_def)
    then show ?thesis using butlast_min [OF m] by simp
  next
    case nonempty: False
    then have "splitIntoSentences t = combined @ [trim cur]"
      using False cl by (simp add: splitIntoSentences_def)
    then show ?thesis using butlast_snoc_min [OF m] by simp
  qed
qed

text \<open>
  C6. A text of fewer than 200 characters gives exactly one chunk, the trimmed text.
  For a text of 200 characters or more, every chunk but the last has at least
  \<open>minChunkLength\<close> = 100 characters.
\<close>

theorem C6_chunker:
  "(length t < 200 \<longrightarrow> splitIntoSentences t = [trim t]) \<and>
   (200 \<le> length t \<longrightarrow>
      (\<forall>c \<in> set (butlast (splitIntoSentences t)). 100 \<le> length c))"
  using splitIntoSentences_butlast [of t]
  by (simp add: splitIntoSentences_def minChunkLength_def)

lemma sampleResponse_chunks:
  "map length (splitIntoSentences sampleResponse) = [143, 128]"
  unfolding sampleResponse_def by code_simp

theorem C6_chunker_witness:
  "length ''  Hi there. '' < 200 \<and> splitIntoSentences ''  Hi there. '' = [''Hi there.''] \<and>
   200 \<le> length sampleResponse \<and> 100 \<le> length (hd (splitIntoSentences sampleResponse))"
proof -
  have short: "length ''  Hi there. '' < 200"
    by simp
  have tr: "trim ''  Hi there. '' = ''Hi there.''"
    by code_simp
  have long: "200 \<le> length sampleResponse"
    unfolding sampleResponse_def by simp
  have mem: "hd (splitIntoSentences sampleResponse) \<in> set (butlast (splitIntoSentences sampleResponse))"
    unfolding sampleResponse_def by code_simp
  have "splitIntoSentences ''  Hi there. '' = [''Hi there.'']"
    using C6_chunker [of "''  Hi there. ''"] short tr by simp
  moreover have "100 \<le> length (hd (splitIntoSentences sampleResponse))"
    using C6_chunker [of sampleResponse] long mem by blast
  ultimately show ?thesis
    using short long by blast
qed

section \<open>Properties of the resampler\<close>

lemma interpolate_same: "i < length input \<Longrightarrow> interpolate input 1 i = input ! i"
  by (simp add: interpolate_def)

text \<open>
  C9. Resampling a channel from a rate to the same rate returns the input buffer: the
  ratio is 1, the output has the input's length, and every output sample is the input
  sample at the same index (the fraction is 0). The rate is any number other than 0.
\<close>

theorem C9_resample_same_rate:
  "r \<noteq> 0 \<Longrightarrow> resampleChannel pcm r r = Inr pcm"
proof -
  assume r: "r \<noteq> 0"
  have "map (interpolate pcm 1) [0..<length pcm] = map ((!) pcm) [0..<length pcm]"
    by (rule map_cong) (simp_all add: interpolate_same)
  also have "\<dots> = pcm"
    by (rule map_nth)
  finally show ?thesis
    using r by (simp add: resampleChannel_def)
qed

text \<open>
  For positive rates the call returns a buffer of \<open>floor(inputLength / ratio)\<close> samples,
  and every index the loop reads is inside the input.
\<close>

lemma resampleChannel_length:
  "0 < inputRate \<Longrightarrow> 0 < outputRate \<Longrightarrow>
   \<exists>out. resampleChannel input inputRate outputRate = Inr out \<and>
     int (length out) = \<lfloor>real (length input) / (inputRate / outputRate)\<rfloor>"
proof -
  assume pos: "0 < inputRate" "0 < outputRate"
  then have "0 \<le> real (length input) / (inputRate / outputRate)"
    by simp
  then have "0 \<le> \<lfloor>real (length input) / (inputRate / outputRate)\<rfloor>"
    by (simp only: zero_le_floor)
  then show ?thesis
    using pos by (simp add: resampleChannel_def Let_def not_less)
qed

lemma resampleChannel_reads_in_range:
  assumes "0 < ratio" and "i < nat \<lfloor>real (length input) / ratio\<rfloor>"
  shows "0 \<le> \<lfloor>real i * ratio\<rfloor> \<and> nat \<lfloor>real i * ratio\<rfloor> < length input \<and>
         0 \<le> min (\<lfloor>real i * ratio\<rfloor> + 1) (int (length input) - 1) \<and>
         nat (min (\<lfloor>real i * ratio\<rfloor> + 1) (int (length input) - 1)) < length input"
proof -
  have "real i + 1 \<le> real_of_int \<lfloor>real (length input) / ratio\<rfloor>"
    using assms(2) by linarith
  also have "\<dots> \<le> real (length input) / ratio"
    by simp
  finally have "(real i + 1) * ratio \<le> real (length input)"
    using assms(1) by (simp add: pos_le_divide_eq)
  then have lt: "real i * ratio < real (length input)"
    using assms(1) by (simp add: algebra_simps)
  define k where "k = \<lfloor>real i * ratio\<rfloor>"
  have "0 \<le> real i * ratio"
    using assms(1) by simp
  then have k0: "0 \<le> k"
    unfolding k_def by simp
  have kl: "k < int (length input)"
    unfolding k_def using lt by (simp add: floor_less_iff)
  have "0 \<le> k \<and> nat k < length input \<and>
        0 \<le> min (k + 1) (int (length input) - 1) \<and>
        nat (min (k + 1) (int (length input) - 1)) < length input"
    using k0 kl by linarith
  then show ?thesis
    unfolding k_def .
qed

theorem C9_resample_same_rate_witness:
  "(48000::real) \<noteq> 0 \<and> resampleChannel [0.5, -0.25, 1] 48000 48000 = Inr [0.5, -0.25, 1]"
  using C9_resample_same_rate [of 48000 "[0.5, -0.25, 1]"] by simp

lemma resampleChannel_halve: "resampleChannel [0, 1, 2, 3] 2 1 = Inr [0, 2]"
  by (simp add: resampleChannel_def interpolate_def upt_conv_Cons)

lemma resampleChannel_double: "resampleChannel [0, 1] 1 2 = Inr [0, 1/2, 1, 1]"
  by (simp add: resampleChannel_def interpolate_def upt_conv_Cons)

lemma resampleChannel_zero_rate: "resampleChannel [1] 0 0 = Inr []"
  by (simp add: resampleChannel_def)

section \<open>Properties of the bridge\<close>

lemma map_of_alist_set_same [simp]: "map_of (alist_set xs c v) c = Some v"
  by (induction xs c v rule: alist_set.induct) simp_all

lemma map_of_alist_set_other [simp]: "k \<noteq> c \<Longrightarrow> map_of (alist_set xs c v) k = map_of xs k"
  by (induction xs c v rule: alist_set.induct) simp_all

lemma map_of_filter_deleted [simp]: "map_of (filter (\<lambda>(k, w). k \<noteq> c) xs) c = None"
  by (induction xs) auto

lemma map_of_filter_other [simp]:
  "k \<noteq> c \<Longrightarrow> map_of (filter (\<lambda>(k, w). k \<noteq> c) xs) k = map_of xs k"
  by (induction xs) auto

lemma upperChar_nonempty: "upperChar c = Some u \<Longrightarrow> u \<noteq> []"
  by (auto simp: upperChar_def Let_def split: if_splits)

lemma toUpperCase_Nil: "toUpperCase sc = Some [] \<longleftrightarrow> sc = []"
  by (cases sc) (auto split: option.splits dest: upperChar_nonempty)

lemma sendToSession_fields [simp]:
  "pendingPermissions (sendToSession c ev b) = pendingPermissions b"
  "onPermissionResponse (sendToSession c ev b) = onPermissionResponse b"
  "permissionResponses (sendToSession c ev b) = permissionResponses b"
  "currentSessionCode (sendToSession c ev b) = currentSessionCode b"
  "forwarded (sendToSession c ev b) = forwarded b"
  "showTimers (sendToSession c ev b) = showTimers b"
  by (simp_all add: sendToSession_def sessions_set_def split: option.splits)

lemma currentCode_sendToSession [simp]: "currentCode (sendToSession c ev b) = currentCode b"
  by (simp add: currentCode_def)

lemma handlePermissionAndAdvance_pending [simp]:
  "pendingPermissions (handlePermissionAndAdvance rid a al b) = removeById rid (pendingPermissions b)"
  by (simp add: handlePermissionAndAdvance_def Let_def currentCode_def split: option.splits)

lemma handlePermissionAndAdvance_callback [simp]:
  "onPermissionResponse (handlePermissionAndAdvance rid a al b) = onPermissionResponse b"
  by (simp add: handlePermissionAndAdvance_def Let_def currentCode_def split: option.splits)

lemma handlePermissionAndAdvance_responses [simp]:
  "permissionResponses (handlePermissionAndAdvance rid a al b) =
     (if onPermissionResponse b then permissionResponses b @ [(rid, a, al)]
      else permissionResponses b)"
  by (simp add: handlePermissionAndAdvance_def Let_def currentCode_def split: option.splits)

lemma handlePermissionAndAdvance_forwarded [simp]:
  "forwarded (handlePermissionAndAdvance rid a al b) = forwarded b"
  by (simp add: handlePermissionAndAdvance_def Let_def currentCode_def split: option.splits)

lemma removeById_absent: "rid \<notin> set (map id' ps) \<Longrightarrow> removeById rid ps = ps"
  by (induction ps) auto

lemma resolveAll_empties:
  "pendingPermissions b = ps \<Longrightarrow> pendingPermissions (resolveAll a (map id' ps) b) = []"
  unfolding resolveAll_def
proof (induction ps arbitrary: b)
  case Nil
  then show ?case by simp
next
  case (Cons p ps)
  have "pendingPermissions (handlePermissionAndAdvance (id' p) a False b) = ps"
    using Cons.prems by simp
  then show ?case
    using Cons.IH [of "handlePermissionAndAdvance (id' p) a False b"] by simp
qed

lemma resolveAll_callback [simp]:
  "onPermissionResponse (resolveAll a ids b) = onPermissionResponse b"
  unfolding resolveAll_def by (induction ids arbitrary: b) simp_all

lemma resolveAll_responses:
  "onPermissionResponse b \<Longrightarrow>
   permissionResponses (resolveAll a ids b) = permissionResponses b @ map (\<lambda>i. (i, a, False)) ids"
  unfolding resolveAll_def by (induction ids arbitrary: b) simp_all

text \<open>
  C2. With at least one permission queued, a transcript that contains an allow-all phrase
  is taken as a permission response; afterwards the queue is empty, and when the
  callback is registered it has been called once for each queued entry, in queue order,
  with approved = true and alwaysAllow = false.
\<close>

theorem C2_allow_all:
  assumes "pendingPermissions b \<noteq> []" and "matches allowAllPhrases transcript"
  shows "fst (checkForPermissionResponse transcript b) \<and>
         pendingPermissions (snd (checkForPermissionResponse transcript b)) = [] \<and>
         (onPermissionResponse b \<longrightarrow>
            permissionResponses (snd (checkForPermissionResponse transcript b)) =
              permissionResponses b @ map (\<lambda>p. (id' p, True, False)) (pendingPermissions b))"
proof -
  have r: "checkForPermissionResponse transcript b =
             (True, resolveAll True (map id' (pendingPermissions b)) b)"
    using assms by (simp add: checkForPermissionResponse_def split: list.splits)
  show ?thesis
    unfolding r by (simp add: resolveAll_empties resolveAll_responses comp_def)
qed

theorem C2_allow_all_witness:
  "pendingPermissions queuedServer \<noteq> [] \<and> matches allowAllPhrases ''Allow all.'' \<and>
   onPermissionResponse queuedServer \<and>
   fst (checkForPermissionResponse ''Allow all.'' queuedServer) \<and>
   pendingPermissions (snd (checkForPermissionResponse ''Allow all.'' queuedServer)) = [] \<and>
   permissionResponses (snd (checkForPermissionResponse ''Allow all.'' queuedServer)) =
     [(''p1'', True, False), (''p2'', True, False)]"
proof -
  have q: "pendingPermissions queuedServer =
      [\<lparr>id' = ''p1'', tool = ''Bash'', prompt = ''Run a command''\<rparr>,
       \<lparr>id' = ''p2'', tool = ''Write'', prompt = ''Write a file''\<rparr>]"
    by code_simp
  have ne: "pendingPermissions queuedServer \<noteq> []"
    by (simp add: q)
  have m: "matches allowAllPhrases ''Allow all.''"
    by code_simp
  have cb: "onPermissionResponse queuedServer" "permissionResponses queuedServer = []"
    by code_simp+
  show ?thesis
    using C2_allow_all [OF ne m] cb m by (simp add: q)
qed

text \<open>
  C5. For a request with a non-empty session code, looked up in capitals: a code that
  names no session is answered 404 and nothing changes; a code whose session never
  connected and was created more than \<open>SESSION_CODE_EXPIRY\<close> before is answered 410 and
  its session is deleted; any other known code is answered 200 with the session's token,
  and the session is then connected with the current time as its last activity.
\<close>

theorem C5_connect:
  assumes "sc \<noteq> []"
  shows "(lookupCode b sc = None \<longrightarrow>
            handleConnect (SessionCode (Some sc)) t1 t2 b =
              (b, (404, ErrorBody ''Invalid or expired session code''))) \<and>
         (\<forall>c session. toUpperCase sc = Some c \<and> sessions_get b c = Some session \<longrightarrow>
            (if \<not> connected session \<and> t1 - createdAt session > 5 * 60 * 1000
             then snd (handleConnect (SessionCode (Some sc)) t1 t2 b) =
                    (410, ErrorBody ''Session code has expired'') \<and>
                  sessions_get (fst (handleConnect (SessionCode (Some sc)) t1 t2 b)) c = None
             else snd (handleConnect (SessionCode (Some sc)) t1 t2 b) =
                    (200, ConnectBody (token session)) \<and>
                  sessions_get (fst (handleConnect (SessionCode (Some sc)) t1 t2 b)) c =
                    Some (session\<lparr>connected := True, lastActivity := t2\<rparr>)))"
proof (cases "toUpperCase sc")
  case None
  then show ?thesis
    by (simp add: handleConnect_def lookupCode_def)
next
  case (Some c)
  then have ne: "c \<noteq> []"
    using assms toUpperCase_Nil [of sc] by auto
  show ?thesis
    using Some ne
    by (simp add: handleConnect_def lookupCode_def sessions_get_def sessions_set_def
        sessions_delete_def SESSION_CODE_EXPIRY_def)
qed

lemma handleConnect_other_sessions:
  "toUpperCase sc \<noteq> Some k \<Longrightarrow>
   sessions_get (fst (handleConnect (SessionCode (Some sc)) t1 t2 b)) k = sessions_get b k"
  by (auto simp: handleConnect_def sessions_get_def sessions_set_def sessions_delete_def
      split: option.splits)

lemma handleConnect_malformed:
  "snd (handleConnect Unparsable t1 t2 b) = (400, ErrorBody ''Invalid request'') \<and>
   snd (handleConnect (SessionCode None) t1 t2 b) = (400, ErrorBody ''Session code required'') \<and>
   snd (handleConnect (SessionCode (Some [])) t1 t2 b) = (400, ErrorBody ''Session code required'')"
  by (simp add: handleConnect_def)

text \<open>
  A sharp s in the request is the two letters SS of the session's code, and a code with
  a micro sign names no session.
\<close>

lemma toUpperCase_examples:
  "toUpperCase ''zzz999'' = Some ''ZZZ999''" "toUpperCase ''abc234'' = Some ''ABC234''"
  "toUpperCase [CHR ''a'', CHR ''b'', CHR ''c'', CHR ''d'', CHR 0xDF] = Some ''ABCDSS''"
  "toUpperCase [CHR ''a'', CHR ''b'', CHR ''c'', CHR 0xB5] = None"
  "toUpperCase [CHR 0xE9, CHR 0xF7] = Some [CHR 0xC9, CHR 0xF7]"
  by code_simp+

lemma connect_examples:
  "sessions_get freshServer ''ZZZ999'' = None"
  "sessions_get freshServer ''ABC234'' =
      Some \<lparr>code = ''ABC234'', token = ''t0ken'', createdAt = 0, lastActivity = 0,
             connected = False, response = None\<rparr>"
  "sessions_get sharpServer ''ABCDSS'' =
      Some \<lparr>code = ''ABCDSS'', token = ''s3cret'', createdAt = 0, lastActivity = 0,
             connected = False, response = None\<rparr>"
  by code_simp+

theorem C5_connect_witness:
  "''zzz999'' \<noteq> [] \<and>
   handleConnect (SessionCode (Some ''zzz999'')) 1000 1001 freshServer =
     (freshServer, (404, ErrorBody ''Invalid or expired session code'')) \<and>
   handleConnect (SessionCode (Some [CHR ''a'', CHR ''b'', CHR ''c'', CHR 0xB5])) 1000 1001 freshServer =
     (freshServer, (404, ErrorBody ''Invalid or expired session code'')) \<and>
   snd (handleConnect (SessionCode (Some ''abc234'')) 300001 300002 freshServer) =
     (410, ErrorBody ''Session code has expired'') \<and>
   sessions_get (fst (handleConnect (SessionCode (Some ''abc234'')) 300001 300002 freshServer))
     ''ABC234'' = None \<and>
   snd (handleConnect (SessionCode (Some ''abc234'')) 300000 300002 freshServer) =
     (200, ConnectBody ''t0ken'') \<and>
   sessions_get (fst (handleConnect (SessionCode (Some ''abc234'')) 300000 300002 freshServer))
     ''ABC234'' =
     Some \<lparr>code = ''ABC234'', token = ''t0ken'', createdAt = 0, lastActivity = 300002,
            connected = True, response = None\<rparr> \<and>
   snd (handleConnect (SessionCode (Some [CHR ''a'', CHR ''b'', CHR ''c'', CHR ''d'', CHR 0xDF])) 1000 1001 sharpServer) =
     (200, ConnectBody ''s3cret'') \<and>
   sessions_get (fst (handleConnect (SessionCode (Some [CHR ''a'', CHR ''b'', CHR ''c'', CHR ''d'', CHR 0xDF])) 1000 1001
     sharpServer)) ''ABCDSS'' =
     Some \<lparr>code = ''ABCDSS'', token = ''s3cret'', createdAt = 0, lastActivity = 1001,
            connected = True, response = None\<rparr>"
proof -
  have ne: "''zzz999'' \<noteq> []" "''abc234'' \<noteq> []" "[CHR ''a'', CHR ''b'', CHR ''c'', CHR ''d'', CHR 0xDF] \<noteq> []"
    "[CHR ''a'', CHR ''b'', CHR ''c'', CHR 0xB5] \<noteq> []"
    by simp_all
  show ?thesis
    using C5_connect [OF ne(1), of freshServer 1000 1001]
      C5_connect [OF ne(4), of freshServer 1000 1001]
      C5_connect [OF ne(2), of freshServer 300001 300002]
      C5_connect [OF ne(2), of freshServer 300000 300002]
      C5_connect [OF ne(3), of sharpServer 1000 1001]
    by (simp add: lookupCode_def toUpperCase_examples connect_examples del: toUpperCase.simps)
qed

lemma checkForPermissionResponse_ambiguous:
  assumes "\<not> matches allowAllPhrases t" and "\<not> matches denyAllPhrases t"
    and "\<not> matches alwaysAllowPhrases t"
    and "matches approvalPhrases t = matches denialPhrases t"
  shows "checkForPermissionResponse t b = (False, b)"
  using assms by (simp add: checkForPermissionResponse_def split: list.splits)

lemma sessions_set_fields [simp]:
  "pendingPermissions (sessions_set c v b) = pendingPermissions b"
  "permissionResponses (sessions_set c v b) = permissionResponses b"
  "forwarded (sessions_set c v b) = forwarded b"
  by (simp_all add: sessions_set_def)

text \<open>
  C7. A transcript that matches no allow-all, deny-all or always-allow phrase, and that
  matches the approval phrases and the denial phrases both or neither, is no permission
  response: the check answers false and changes nothing. \<open>handleAudio\<close>, called with a
  valid token, then resolves no permission, calls no permission callback, forwards the
  transcript to the assistant and answers 200 without the permission flag.
\<close>

theorem C7_ambiguous_forwarded:
  assumes "findSessionByToken tok b \<noteq> None"
    and "\<not> matches allowAllPhrases t" and "\<not> matches denyAllPhrases t"
    and "\<not> matches alwaysAllowPhrases t"
    and "matches approvalPhrases t = matches denialPhrases t"
  shows "checkForPermissionResponse t b = (False, b) \<and>
         pendingPermissions (fst (handleAudio tok (Inr (audio, mime)) (Inr t) now b)) =
           pendingPermissions b \<and>
         permissionResponses (fst (handleAudio tok (Inr (audio, mime)) (Inr t) now b)) =
           permissionResponses b \<and>
         forwarded (fst (handleAudio tok (Inr (audio, mime)) (Inr t) now b)) =
           forwarded b @ [t] \<and>
         snd (handleAudio tok (Inr (audio, mime)) (Inr t) now b) = (200, AudioBody t False)"
proof -
  obtain vs where vs: "findSessionByToken tok b = Some vs"
    using assms(1) by blast
  have c: "\<And>b'. checkForPermissionResponse t b' = (False, b')"
    using assms(2-5) by (rule checkForPermissionResponse_ambiguous)
  show ?thesis
    by (simp add: handleAudio_def vs c Let_def)
qed

theorem C7_ambiguous_forwarded_witness:
  "findSessionByToken (Some ''t0ken'') queuedServer \<noteq> None \<and>
   \<not> matches allowAllPhrases ''maybe okay no'' \<and>
   \<not> matches denyAllPhrases ''maybe okay no'' \<and>
   \<not> matches alwaysAllowPhrases ''maybe okay no'' \<and>
   matches approvalPhrases ''maybe okay no'' \<and> matches denialPhrases ''maybe okay no'' \<and>
   pendingPermissions (fst (handleAudio (Some ''t0ken'') (Inr ([], ''audio/webm''))
      (Inr ''maybe okay no'') 5000 queuedServer)) = pendingPermissions queuedServer \<and>
   permissionResponses (fst (handleAudio (Some ''t0ken'') (Inr ([], ''audio/webm''))
      (Inr ''maybe okay no'') 5000 queuedServer)) = [] \<and>
   forwarded (fst (handleAudio (Some ''t0ken'') (Inr ([], ''audio/webm''))
      (Inr ''maybe okay no'') 5000 queuedServer)) = [''maybe okay no''] \<and>
   snd (handleAudio (Some ''t0ken'') (Inr ([], ''audio/webm''))
      (Inr ''maybe okay no'') 5000 queuedServer) = (200, AudioBody ''maybe okay no'' False)"
proof -
  have tok: "findSessionByToken (Some ''t0ken'') queuedServer \<noteq> None"
    by code_simp
  have m: "\<not> matches allowAllPhrases ''maybe okay no''"
    "\<not> matches denyAllPhrases ''maybe okay no''"
    "\<not> matches alwaysAllowPhrases ''maybe okay no''"
    "matches approvalPhrases ''maybe okay no''" "matches denialPhrases ''maybe okay no''"
    by code_simp+
  have both: "matches approvalPhrases ''maybe okay no'' = matches denialPhrases ''maybe okay no''"
    using m(4,5) by simp
  have old: "permissionResponses queuedServer = []" "forwarded queuedServer = []"
    by code_simp+
  show ?thesis
    using C7_ambiguous_forwarded [OF tok m(1) m(2) m(3) both, of "[]" "''audio/webm''" 5000]
      tok m old by simp
qed

text \<open>
  The batch phrases come first: a transcript with an approval word, a denial word and a
  deny-all phrase is a deny-all.
\<close>

lemma batch_phrase_first:
  "matches approvalPhrases ''cancel all, okay'' \<and> matches denialPhrases ''cancel all, okay'' \<and>
   fst (checkForPermissionResponse ''cancel all, okay'' queuedServer) \<and>
   permissionResponses (snd (checkForPermissionResponse ''cancel all, okay'' queuedServer)) =
     [(''p1'', False, False), (''p2'', False, False)]"
  by code_simp

lemma C7_neither_example:
  "\<not> matches approvalPhrases ''what time is it'' \<and> \<not> matches denialPhrases ''what time is it''"
  by code_simp

text \<open>
  C10. A resolution for an id that is not in the queue leaves the queue as it is; the
  permission callback, when registered, is still called for that id, and the current
  session, when its push channel is open, still receives a \<open>permissionHandled\<close> event
  whose remaining count is the length of the unchanged queue. On the button path the
  request is answered 200.
\<close>

theorem C10_unknown_id:
  assumes "rid \<notin> set (map id' (pendingPermissions b))"
    and "onPermissionResponse b"
    and "currentCode b = Some c" and "sessions_get b c = Some session"
    and "response session = Some r" and "\<not> writableEnded r"
  shows "pendingPermissions (handlePermissionAndAdvance rid approved alwaysAllow b) =
           pendingPermissions b \<and>
         permissionResponses (handlePermissionAndAdvance rid approved alwaysAllow b) =
           permissionResponses b @ [(rid, approved, alwaysAllow)] \<and>
         sessions_get (handlePermissionAndAdvance rid approved alwaysAllow b) c =
           Some (session\<lparr>response := Some (r\<lparr>written := written r @
             [PermissionHandled rid approved (length (pendingPermissions b))]\<rparr>)\<rparr>) \<and>
         (findSessionByToken tok b \<noteq> None \<longrightarrow>
            handlePermission tok (Some (rid, approved, Some alwaysAllow)) b =
              (handlePermissionAndAdvance rid approved alwaysAllow b, (200, SuccessBody)))"
proof -
  have same: "removeById rid (pendingPermissions b) = pendingPermissions b"
    using assms(1) by (rule removeById_absent)
  have "sessions_get (handlePermissionAndAdvance rid approved alwaysAllow b) c =
           Some (session\<lparr>response := Some (r\<lparr>written := written r @
             [PermissionHandled rid approved (length (pendingPermissions b))]\<rparr>)\<rparr>)"
    using assms(2-6)
    by (simp add: handlePermissionAndAdvance_def Let_def same currentCode_def sendToSession_def
        sessions_get_def sessions_set_def split: option.splits if_splits)
  moreover have "findSessionByToken tok b \<noteq> None \<longrightarrow>
            handlePermission tok (Some (rid, approved, Some alwaysAllow)) b =
              (handlePermissionAndAdvance rid approved alwaysAllow b, (200, SuccessBody))"
    by (auto simp: handlePermission_def)
  ultimately show ?thesis
    using assms(2) by (simp add: same)
qed

lemma handlePermissionAndAdvance_unknown_no_callback:
  "rid \<notin> set (map id' (pendingPermissions b)) \<Longrightarrow> \<not> onPermissionResponse b \<Longrightarrow>
   currentCode b = None \<Longrightarrow> handlePermissionAndAdvance rid approved alwaysAllow b = b"
  by (simp add: handlePermissionAndAdvance_def removeById_absent)

theorem C10_unknown_id_witness:
  "''zz'' \<notin> set (map id' (pendingPermissions queuedServer)) \<and>
   onPermissionResponse queuedServer \<and> currentCode queuedServer = Some ''ABC234'' \<and>
   findSessionByToken (Some ''t0ken'') queuedServer \<noteq> None \<and>
   pendingPermissions (handlePermissionAndAdvance ''zz'' True False queuedServer) =
     pendingPermissions queuedServer \<and>
   permissionResponses (handlePermissionAndAdvance ''zz'' True False queuedServer) =
     [(''zz'', True, False)] \<and>
   map_option (\<lambda>s. map_option (last \<circ> written) (response s))
     (sessions_get (handlePermissionAndAdvance ''zz'' True False queuedServer) ''ABC234'') =
     Some (Some (PermissionHandled ''zz'' True 2)) \<and>
   handlePermission (Some ''t0ken'') (Some (''zz'', True, Some False)) queuedServer =
     (handlePermissionAndAdvance ''zz'' True False queuedServer, (200, SuccessBody))"
proof -
  have q: "pendingPermissions queuedServer =
      [\<lparr>id' = ''p1'', tool = ''Bash'', prompt = ''Run a command''\<rparr>,
       \<lparr>id' = ''p2'', tool = ''Write'', prompt = ''Write a file''\<rparr>]"
    by code_simp
  have absent: "''zz'' \<notin> set (map id' (pendingPermissions queuedServer))"
    by (simp add: q)
  have cb: "onPermissionResponse queuedServer" "permissionResponses queuedServer = []"
    by code_simp+
  have cur: "currentCode queuedServer = Some ''ABC234''"
    by code_simp
  have s: "sessions_get queuedServer ''ABC234'' =
      Some \<lparr>code = ''ABC234'', token = ''t0ken'', createdAt = 0, lastActivity = 1001,
        connected = True,
        response = Some \<lparr>writableEnded = False, written =
          [Connected, PermissionQueue 1 [(''p1'', ''Bash'', ''Run a command'')],
           PermissionRequest ''p1'' ''Bash'' ''Run a command'' 1,
           PermissionQueue 2 [(''p1'', ''Bash'', ''Run a command''),
             (''p2'', ''Write'', ''Write a file'')]]\<rparr>\<rparr>"
    by code_simp
  have tok: "findSessionByToken (Some ''t0ken'') queuedServer \<noteq> None"
    by code_simp
  show ?thesis
    using C10_unknown_id [OF absent cb(1) cur s, of _ True False "Some ''t0ken''"] cb cur tok absent
    by (simp add: q)
qed

section \<open>Properties of the scheduler\<close>

lemma inv_at_pc [simp]: "inv_at ts F p (m\<lparr>pc := x\<rparr>) = inv_at ts F p m"
  by (simp add: inv_at_def handedCount_def)

lemma inv_at_state [simp]: "inv_at ts F p (m\<lparr>state := x\<rparr>) = inv_at ts F p m"
  by (simp add: inv_at_def handedCount_def)

lemma inv_at_completes [simp]: "inv_at ts F p (m\<lparr>completes := x\<rparr>) = inv_at ts F p m"
  by (simp add: inv_at_def handedCount_def)

lemma map_text_update:
  "i < length q \<Longrightarrow> text' x = text' (q ! i) \<Longrightarrow> map text' (q[i := x]) = map text' q"
  by (simp add: map_update list_update_same_conv)

lemma inv_at_updItem:
  assumes inv: "inv_at ts F p m"
    and i: "i < length (queue m)" "handedCount p m \<le> i"
    and x: "text' x = text' (queue m ! i)" "ok_item x pr" "i \<in> F \<Longrightarrow> status x = Cancelled"
  shows "inv_at ts F p (updItem i x pr m)"
proof -
  have ci: "currentIndex m \<le> i"
    using i(2) by (simp add: handedCount_def split: if_splits)
  have hc [simp]: "handedCount p (updItem i x pr m) = handedCount p m"
    by (simp add: handedCount_def updItem_def)
  have q [simp]: "queue (updItem i x pr m) = (queue m)[i := x]"
    "generatePromises (updItem i x pr m) = (generatePromises m)(i := pr)"
    "currentIndex (updItem i x pr m) = currentIndex m" "handed (updItem i x pr m) = handed m"
    "isStopped (updItem i x pr m) = isStopped m"
    by (simp_all add: updItem_def)
  have 1: "map text' (queue (updItem i x pr m)) = ts"
    using inv i(1) x(1) by (simp add: inv_at_def map_text_update)
  have 4: "\<forall>j < currentIndex m. status ((queue m)[i := x] ! j) = Completed \<and>
        ((generatePromises m)(i := pr)) j \<noteq> Some Unsettled"
    using inv ci by (simp add: inv_at_def)
  have 5: "p \<longrightarrow> currentIndex m < length (queue m) \<and>
        status ((queue m)[i := x] ! currentIndex m) = Playing \<and>
        ((generatePromises m)(i := pr)) (currentIndex m) \<noteq> Some Unsettled"
    using inv i(2) by (cases p) (simp_all add: inv_at_def handedCount_def)
  have 6: "\<forall>j < length (queue m). handedCount p m \<le> j \<longrightarrow>
        ok_item ((queue m)[i := x] ! j) (((generatePromises m)(i := pr)) j)"
  proof (intro allI impI)
    fix j assume j: "j < length (queue m)" "handedCount p m \<le> j"
    show "ok_item ((queue m)[i := x] ! j) (((generatePromises m)(i := pr)) j)"
    proof (cases "j = i")
      case True
      then show ?thesis using x(2) i(1) by simp
    next
      case False
      then show ?thesis using inv j by (simp add: inv_at_def)
    qed
  qed
  have 9: "\<forall>k \<in> F. k < length (queue m) \<and> status ((queue m)[i := x] ! k) = Cancelled"
  proof
    fix k assume k: "k \<in> F"
    then have "k < length (queue m)" "status (queue m ! k) = Cancelled"
      using inv by (simp_all add: inv_at_def)
    then show "k < length (queue m) \<and> status ((queue m)[i := x] ! k) = Cancelled"
      using x(3) k by (cases "k = i") simp_all
  qed
  show ?thesis
    unfolding inv_at_def
    using 1 4 5 6 9 inv by (simp add: inv_at_def)
qed

lemma inv_at_insert:
  "inv_at ts F p m \<Longrightarrow> k < length (queue m) \<Longrightarrow> status (queue m ! k) = Cancelled \<Longrightarrow>
   inv_at ts (insert k F) p m"
  by (simp add: inv_at_def)

lemma inv_at_below:
  assumes "inv_at ts F p m" and "j < handedCount p m"
  shows "status (queue m ! j) = Completed \<or> status (queue m ! j) = Playing"
    and "generatePromises m j \<noteq> Some Unsettled"
  using assms by (cases p; cases "j = currentIndex m"; simp add: inv_at_def handedCount_def)+

lemma inv_at_ok:
  "inv_at ts F p m \<Longrightarrow> j < length (queue m) \<Longrightarrow> handedCount p m \<le> j \<Longrightarrow>
   ok_item (queue m ! j) (generatePromises m j)"
  by (simp add: inv_at_def)

lemma startGenerating_inv:
  assumes inv: "inv_at ts F p m"
  shows "inv_at ts F p (startGenerating i m)"
proof (cases "i < length (queue m) \<and> status (queue m ! i) = Pending")
  case False
  then show ?thesis using inv by (auto simp: startGenerating_def)
next
  case True
  have eq: "startGenerating i m =
      updItem i ((queue m ! i)\<lparr>status := Generating\<rparr>) (Some Unsettled) m"
    using True by (simp add: startGenerating_def setStatus_def updItem_def)
  have ge: "handedCount p m \<le> i"
  proof (rule ccontr)
    assume "\<not> handedCount p m \<le> i"
    then have "i < handedCount p m" by simp
    from inv_at_below(1) [OF inv this] True show False by simp
  qed
  have notF: "i \<notin> F"
    using inv True by (auto simp: inv_at_def)
  show ?thesis
    unfolding eq using inv True ge notF
    by (intro inv_at_updItem) (simp_all add: ok_item_def)
qed

lemma synthesisSettled_inv:
  assumes inv: "inv_at ts F p m"
  shows "inv_at ts F p (synthesisSettled i r m)"
proof (cases "generatePromises m i = Some Unsettled \<and> i < length (queue m)")
  case False
  then show ?thesis using inv by (auto simp: synthesisSettled_def)
next
  case True
  have ge: "handedCount p m \<le> i"
  proof (rule ccontr)
    assume "\<not> handedCount p m \<le> i"
    then have "i < handedCount p m" by simp
    from inv_at_below(2) [OF inv this] True show False by simp
  qed
  have "ok_item (queue m ! i) (generatePromises m i)"
    using inv_at_ok [OF inv _ ge] True by blast
  then have gen: "status (queue m ! i) = Generating"
    using True by (simp add: ok_item_def)
  have notF: "i \<notin> F"
    using inv gen by (auto simp: inv_at_def)
  have ns: "\<not> isStopped m"
    using inv by (simp add: inv_at_def)
  show ?thesis
  proof (cases r)
    case None
    have eq: "synthesisSettled i r m =
        updItem i ((queue m ! i)\<lparr>status := Cancelled\<rparr>) (Some Settled) m"
      using True None by (simp add: synthesisSettled_def setStatus_def updItem_def)
    show ?thesis
      unfolding eq using inv True ge notF
      by (intro inv_at_updItem) (simp_all add: ok_item_def)
  next
    case (Some buf)
    have eq: "synthesisSettled i r m =
        updItem i ((queue m ! i)\<lparr>audioBuffer := Some buf, status := Ready\<rparr>) (Some Settled) m"
      using True Some ns by (simp add: synthesisSettled_def updItem_def)
    show ?thesis
      unfolding eq using inv True ge notF
      by (intro inv_at_updItem) (simp_all add: ok_item_def)
  qed
qed


lemma startGenerating_fields [simp]:
  "length (queue (startGenerating i m)) = length (queue m)"
  "currentIndex (startGenerating i m) = currentIndex m"
  "handed (startGenerating i m) = handed m"
  "isStopped (startGenerating i m) = isStopped m"
  "pc (startGenerating i m) = pc m"
  by (simp_all add: startGenerating_def setStatus_def)

lemma startGenerating_other [simp]:
  "j \<noteq> i \<Longrightarrow> queue (startGenerating i m) ! j = queue m ! j"
  by (simp add: startGenerating_def setStatus_def)

lemma startGenerating_guarded:
  "(if i < length (queue m) \<and> status (queue m ! i) = Pending then startGenerating i m else m) =
   startGenerating i m"
  by (auto simp: startGenerating_def)

lemma startGenerating_promise:
  "i < length (queue m) \<Longrightarrow> status (queue m ! i) = Pending \<Longrightarrow>
   generatePromises (startGenerating i m) i = Some Unsettled"
  by (simp add: startGenerating_def setStatus_def)

lemma handover_inv:
  assumes inv: "inv_at ts F False n"
    and c: "currentIndex n < length (queue n)"
    and r: "status (queue n ! currentIndex n) = Ready"
  shows "inv_at ts F True
           ((setStatus (currentIndex n) Playing n)
              \<lparr>state := StatePlaying,
               handed := handed n @ [Handoff tg (currentIndex n) (text' (queue n ! currentIndex n)) buf l]\<rparr>)"
proof -
  let ?i = "currentIndex n"
  have ok: "ok_item (queue n ! ?i) (generatePromises n ?i)"
    using inv c by (simp add: inv_at_ok handedCount_def)
  then have settled: "generatePromises n ?i \<noteq> Some Unsettled"
    using r by (simp add: ok_item_def)
  have notF: "?i \<notin> F"
    using inv r by (auto simp: inv_at_def)
  have ts: "map text' (queue n) = ts"
    using inv by (simp add: inv_at_def)
  then have nth: "text' (queue n ! ?i) = ts ! ?i"
    using c by (metis nth_map)
  have len: "?i < length ts"
    using c ts by auto
  have F: "\<forall>k \<in> F. k < length (queue n) \<and> status ((queue n)[?i := (queue n ! ?i)\<lparr>status := Playing\<rparr>] ! k) = Cancelled"
  proof
    fix k assume k: "k \<in> F"
    then have "k \<noteq> ?i" using notF by auto
    then show "k < length (queue n) \<and> status ((queue n)[?i := (queue n ! ?i)\<lparr>status := Playing\<rparr>] ! k) = Cancelled"
      using inv k by (simp add: inv_at_def)
  qed
  show ?thesis
    unfolding inv_at_def setStatus_def
    using inv c settled F
    by (simp add: inv_at_def handedCount_def map_text_update nth take_Suc_conv_app_nth [OF len])
qed

lemma complete_inv:
  assumes inv: "inv_at ts F True n"
  shows "inv_at ts F False ((setStatus (currentIndex n) Completed n)\<lparr>currentIndex := currentIndex n + 1\<rparr>)"
proof -
  let ?i = "currentIndex n"
  have c: "?i < length (queue n)" "status (queue n ! ?i) = Playing"
    "generatePromises n ?i \<noteq> Some Unsettled"
    using inv by (simp_all add: inv_at_def)
  have notF: "?i \<notin> F"
    using inv c(2) by (auto simp: inv_at_def)
  have below: "\<forall>j < Suc ?i. status ((queue n)[?i := (queue n ! ?i)\<lparr>status := Completed\<rparr>] ! j) = Completed \<and>
      generatePromises n j \<noteq> Some Unsettled"
  proof (intro allI impI)
    fix j assume "j < Suc ?i"
    then consider "j = ?i" | "j < ?i" by linarith
    then show "status ((queue n)[?i := (queue n ! ?i)\<lparr>status := Completed\<rparr>] ! j) = Completed \<and>
      generatePromises n j \<noteq> Some Unsettled"
    proof cases
      case 1
      then show ?thesis using c by simp
    next
      case 2
      then show ?thesis using inv by (simp add: inv_at_def)
    qed
  qed
  have F: "\<forall>k \<in> F. k < length (queue n) \<and> status ((queue n)[?i := (queue n ! ?i)\<lparr>status := Completed\<rparr>] ! k) = Cancelled"
  proof
    fix k assume k: "k \<in> F"
    then have "k \<noteq> ?i" using notF by auto
    then show "k < length (queue n) \<and> status ((queue n)[?i := (queue n ! ?i)\<lparr>status := Completed\<rparr>] ! k) = Cancelled"
      using inv k by (simp add: inv_at_def)
  qed
  have above: "\<forall>j < length (queue n). Suc ?i \<le> j \<longrightarrow>
      ok_item ((queue n)[?i := (queue n ! ?i)\<lparr>status := Completed\<rparr>] ! j) (generatePromises n j)"
    using inv by (simp add: inv_at_def handedCount_def)
  show ?thesis
    unfolding inv_at_def setStatus_def
    using inv c(1) below F above
    by (simp add: inv_at_def handedCount_def map_text_update)
qed

lemma lookahead_inv:
  assumes inv: "inv_at ts F False m" and c: "currentIndex m < length (queue m)"
  defines "n \<equiv> startGenerating (currentIndex m + 2) (startGenerating (currentIndex m + 1) m)"
  shows "inv_at ts F False n" and "currentIndex n = currentIndex m"
    and "queue n ! currentIndex m = queue m ! currentIndex m"
    and "length (queue n) = length (queue m)" and "isStopped n = isStopped m"
    and "handed n = handed m"
  unfolding n_def using inv by (simp_all add: startGenerating_inv)

lemma afterGenerate_lookahead:
  "afterGenerate browser m =
     (let i = currentIndex m in
      if isStopped m \<or> status (queue m ! i) = Cancelled then (m, Broke)
      else
        let m2 = startGenerating (i + 2) (startGenerating (i + 1) m);
            item = queue m2 ! i
        in case audioBuffer item of
             None \<Rightarrow> (m2, NextIteration)
           | Some buf \<Rightarrow>
               if status item \<noteq> Ready then (m2, NextIteration)
               else
                 let m3 = (setStatus i Playing m2)\<lparr>state := StatePlaying\<rparr>;
                     isLast = (int i = int (length (queue m3)) - 1)
                 in if browser
                    then (setStatus i Completed
                            (m3\<lparr>handed := handed m3 @ [Handoff Browser i (text' item) buf isLast]\<rparr>),
                          NextIteration)
                    else (m3\<lparr>handed := handed m3 @ [Handoff LocalPlayer i (text' item) buf isLast],
                             pc := AwaitPlayer\<rparr>,
                          Suspended))"
  by (simp only: afterGenerate_def Let_def startGenerating_guarded startGenerating_fields)

text \<open>
  What one iteration does from a state that satisfies the invariant, when the cursor
  item is neither pending nor generating.
\<close>

lemma afterGenerate_cases:
  assumes inv: "inv_at ts F False m" and c: "currentIndex m < length (queue m)"
    and st: "status (queue m ! currentIndex m) \<noteq> Pending"
      "status (queue m ! currentIndex m) \<noteq> Generating"
  shows "(status (queue m ! currentIndex m) = Cancelled \<and> afterGenerate b m = (m, Broke)) \<or>
         (\<exists>m'. afterGenerate b m = (m', NextIteration) \<and>
            inv_at ts F False (m'\<lparr>currentIndex := currentIndex m' + 1\<rparr>)) \<or>
         (\<exists>m'. afterGenerate b m = (m', Suspended) \<and> inv_at ts F True m' \<and> pc m' = AwaitPlayer)"
proof -
  let ?i = "currentIndex m"
  let ?n = "startGenerating (?i + 2) (startGenerating (?i + 1) m)"
  note la = lookahead_inv [OF inv c]
  have ns: "\<not> isStopped m"
    using inv by (simp add: inv_at_def)
  have ok: "ok_item (queue m ! ?i) (generatePromises m ?i)"
    using inv c by (simp add: inv_at_ok handedCount_def)
  then consider (cancelled) "status (queue m ! ?i) = Cancelled"
    | (ready) buf where "status (queue m ! ?i) = Ready" "audioBuffer (queue m ! ?i) = Some buf"
    using st by (auto simp: ok_item_def)
  then show ?thesis
  proof cases
    case cancelled
    then show ?thesis by (simp add: afterGenerate_def)
  next
    case ready
    have rn: "status (queue ?n ! currentIndex ?n) = Ready" "currentIndex ?n < length (queue ?n)"
      using la ready c by simp_all
    let ?h = "\<lambda>tg. Handoff tg ?i (text' (queue ?n ! ?i)) buf (int ?i = int (length (queue ?n)) - 1)"
    let ?m3 = "\<lambda>tg. (setStatus ?i Playing ?n)\<lparr>state := StatePlaying, handed := handed ?n @ [?h tg]\<rparr>"
    have h: "inv_at ts F True (?m3 tg)" for tg
      using handover_inv [OF la(1) rn(2) rn(1), of tg buf] la(2) by simp
    have unfold: "afterGenerate b m =
        (if b then (setStatus ?i Completed (?m3 Browser), NextIteration)
         else ((?m3 LocalPlayer)\<lparr>pc := AwaitPlayer\<rparr>, Suspended))"
      using ready ns la(3)
      by (simp add: afterGenerate_lookahead Let_def setStatus_def)
    show ?thesis
    proof (cases b)
      case True
      have "inv_at ts F False ((setStatus (currentIndex (?m3 Browser)) Completed (?m3 Browser))
              \<lparr>currentIndex := currentIndex (?m3 Browser) + 1\<rparr>)"
        by (rule complete_inv) (rule h)
      then show ?thesis
        using True unfold la(2) by (simp add: setStatus_def)
    next
      case False
      then show ?thesis
        using unfold h [of LocalPlayer] by simp
    qed
  qed
qed

lemma finishLoop_fields [simp]:
  "pc (finishLoop m) = Returned" "currentIndex (finishLoop m) = currentIndex m"
  "queue (finishLoop m) = queue m" "inv_at ts F p (finishLoop m) = inv_at ts F p m"
  by (simp_all add: finishLoop_def)

lemma runLoop_Inv:
  "inv_at ts F False m \<Longrightarrow> Inv ts F (runLoop b m)"
proof (induction b m rule: runLoop.induct)
  case (1 b m)
  note inv = "1.prems"
  have ns: "\<not> isStopped m" and le: "currentIndex m \<le> length (queue m)"
    using inv by (simp_all add: inv_at_def)
  show ?case
  proof (cases "currentIndex m < length (queue m)")
    case False
    then have "runLoop b m = finishLoop m"
      by (simp add: runLoop.simps [of b m])
    then show ?thesis
      using inv False le by (simp add: Inv_def)
  next
    case c: True
    show ?thesis
    proof (cases "status (queue m ! currentIndex m) = Pending \<or>
                  status (queue m ! currentIndex m) = Generating")
      case wait: True
      have ok: "ok_item (queue m ! currentIndex m) (generatePromises m (currentIndex m))"
        using inv c by (simp add: inv_at_ok handedCount_def)
      show ?thesis
      proof (cases "generatePromises m (currentIndex m)")
        case None
        then have p: "status (queue m ! currentIndex m) = Pending"
          using ok by (simp add: ok_item_def)
        have "runLoop b m = (startGenerating (currentIndex m) m)\<lparr>pc := AwaitGenerate\<rparr>"
          using c ns wait None by (simp add: runLoop.simps [of b m])
        then show ?thesis
          using startGenerating_inv [OF inv, of "currentIndex m"] c
            startGenerating_promise [OF c p]
          by (simp add: Inv_def)
      next
        case (Some pr)
        have "runLoop b m = m\<lparr>pc := AwaitGenerate\<rparr>"
          using c ns wait Some by (simp add: runLoop.simps [of b m])
        then show ?thesis
          using inv c Some by (simp add: Inv_def)
      qed
    next
      case go: False
      then have st: "status (queue m ! currentIndex m) \<noteq> Pending"
        "status (queue m ! currentIndex m) \<noteq> Generating"
        by simp_all
      have eq: "runLoop b m =
          (case afterGenerate b m of
             (m', Suspended) \<Rightarrow> m'
           | (m', NextIteration) \<Rightarrow> runLoop b (m'\<lparr>currentIndex := currentIndex m' + 1\<rparr>)
           | (m', Broke) \<Rightarrow> finishLoop m')"
        using c ns go by (simp add: runLoop.simps [of b m] split: prod.splits outcome.splits)
      from afterGenerate_cases [OF inv c st, of b]
      consider (broke) "status (queue m ! currentIndex m) = Cancelled" "afterGenerate b m = (m, Broke)"
        | (nxt) m' where "afterGenerate b m = (m', NextIteration)"
            "inv_at ts F False (m'\<lparr>currentIndex := currentIndex m' + 1\<rparr>)"
        | (susp) m' where "afterGenerate b m = (m', Suspended)" "inv_at ts F True m'"
            "pc m' = AwaitPlayer"
        by blast
      then show ?thesis
      proof cases
        case broke
        then show ?thesis
          using eq inv by (simp add: Inv_def)
      next
        case nxt
        have "Inv ts F (runLoop b (m'\<lparr>currentIndex := currentIndex m' + 1\<rparr>))"
          by (rule "1.IH" [of m' NextIteration]) (use c ns go nxt in simp_all)
        then show ?thesis
          using eq nxt(1) by simp
      next
        case susp
        then show ?thesis
          using eq by (simp add: Inv_def)
      qed
    qed
  qed
qed

lemma synthesisSettled_fields [simp]:
  "length (queue (synthesisSettled i r m)) = length (queue m)"
  "currentIndex (synthesisSettled i r m) = currentIndex m"
  "handed (synthesisSettled i r m) = handed m"
  "pc (synthesisSettled i r m) = pc m"
  by (simp_all add: synthesisSettled_def setStatus_def Let_def split: option.splits)

lemma synthesisSettled_promise:
  "generatePromises m j \<noteq> None \<Longrightarrow> generatePromises (synthesisSettled i r m) j \<noteq> None"
  by (simp add: synthesisSettled_def setStatus_def Let_def split: option.splits)

lemma Inv_resumed:
  assumes inv: "inv_at ts F False m" and c: "currentIndex m < length (queue m)"
    and st: "status (queue m ! currentIndex m) \<noteq> Pending"
      "status (queue m ! currentIndex m) \<noteq> Generating"
  shows "Inv ts F (resumeAfterGenerate b m)"
proof -
  from afterGenerate_cases [OF inv c st, of b]
  consider (broke) "status (queue m ! currentIndex m) = Cancelled" "afterGenerate b m = (m, Broke)"
    | (nxt) m' where "afterGenerate b m = (m', NextIteration)"
        "inv_at ts F False (m'\<lparr>currentIndex := currentIndex m' + 1\<rparr>)"
    | (susp) m' where "afterGenerate b m = (m', Suspended)" "inv_at ts F True m'"
        "pc m' = AwaitPlayer"
    by blast
  then show ?thesis
  proof cases
    case broke
    then show ?thesis
      using inv by (simp add: resumeAfterGenerate_def Inv_def)
  next
    case nxt
    then show ?thesis
      using runLoop_Inv [OF nxt(2), of b] by (simp add: resumeAfterGenerate_def)
  next
    case susp
    then show ?thesis
      by (simp add: resumeAfterGenerate_def Inv_def)
  qed
qed

lemma step_Inv:
  assumes inv: "Inv ts F m"
  shows "Inv ts F (step e m)"
proof (cases e)
  case (SynthesisDone i r)
  let ?m' = "synthesisSettled i r m"
  have a: "inv_at ts F (pc m = AwaitPlayer) ?m'"
    using inv by (simp add: Inv_def synthesisSettled_inv)
  have b: "pc m = AwaitGenerate \<longrightarrow>
      currentIndex m < length (queue m) \<and> generatePromises ?m' (currentIndex m) \<noteq> None"
    using inv by (simp add: Inv_def synthesisSettled_promise)
  have c: "pc m = Returned \<longrightarrow>
      currentIndex m = length (queue m) \<or> status (queue ?m' ! currentIndex m) = Cancelled"
  proof (intro impI)
    assume r: "pc m = Returned"
    show "currentIndex m = length (queue m) \<or> status (queue ?m' ! currentIndex m) = Cancelled"
    proof (cases "currentIndex m = length (queue m)")
      case True
      then show ?thesis by simp
    next
      case False
      then have lt: "currentIndex m < length (queue m)"
          and cs: "status (queue m ! currentIndex m) = Cancelled"
        using inv r by (auto simp: Inv_def inv_at_def)
      have "inv_at ts (insert (currentIndex m) F) False m"
        using inv r lt cs by (simp add: Inv_def inv_at_insert)
      then have "inv_at ts (insert (currentIndex m) F) False ?m'"
        by (rule synthesisSettled_inv)
      then show ?thesis
        by (simp add: inv_at_def)
    qed
  qed
  show ?thesis
    using a b c SynthesisDone by (simp add: Inv_def)
next
  case (Resume b)
  show ?thesis
  proof (cases "pc m")
    case AwaitGenerate
    show ?thesis
    proof (cases "generatePromises m (currentIndex m) = Some Unsettled")
      case True
      then show ?thesis using inv Resume AwaitGenerate by simp
    next
      case False
      have i: "inv_at ts F False m" and c: "currentIndex m < length (queue m)"
        and p: "generatePromises m (currentIndex m) \<noteq> None"
        using inv AwaitGenerate by (simp_all add: Inv_def)
      have "ok_item (queue m ! currentIndex m) (generatePromises m (currentIndex m))"
        using i c by (simp add: inv_at_ok handedCount_def)
      then have st: "status (queue m ! currentIndex m) \<noteq> Pending"
        "status (queue m ! currentIndex m) \<noteq> Generating"
        using p False by (auto simp: ok_item_def)
      show ?thesis
        using Inv_resumed [OF i c st, of b] Resume AwaitGenerate False by simp
    qed
  next
    case AwaitPlayer
    have "inv_at ts F True m"
      using inv AwaitPlayer by (simp add: Inv_def)
    then have "Inv ts F (resumeAfterPlayer b m)"
      unfolding resumeAfterPlayer_def by (intro runLoop_Inv complete_inv)
    then show ?thesis
      using Resume AwaitPlayer by simp
  next
    case Returned
    then show ?thesis using inv Resume by simp
  qed
qed

lemma run_Inv: "Inv ts F m \<Longrightarrow> Inv ts F (run evs m)"
  by (induction evs arbitrary: m) (simp_all add: step_Inv)

lemma streamSentences_Inv: "Inv ts {} (streamSentences b ts)"
proof (cases "ts = []")
  case True
  then show ?thesis
    by (simp add: streamSentences_def Inv_def inv_at_def handedCount_def)
next
  case False
  let ?m0 = "\<lparr>queue = map (\<lambda>sentence. \<lparr>text' = sentence, audioBuffer = None, status = Pending\<rparr>) ts,
      state = StateGenerating, currentIndex = 0, isStopped = False,
      generatePromises = (\<lambda>i. None), pc = AwaitGenerate, handed = [], completes = 0\<rparr>"
  have "inv_at ts {} False ?m0"
    by (simp add: inv_at_def handedCount_def ok_item_def comp_def)
  then have "inv_at ts {} False (startGenerating 0 ?m0)"
    and "inv_at ts {} False (startGenerating 1 (startGenerating 0 ?m0))"
    by (simp_all add: startGenerating_inv)
  then have "Inv ts {} (runLoop b (if length ts > 1 then startGenerating 1 (startGenerating 0 ?m0)
      else startGenerating 0 ?m0))"
    by (intro runLoop_Inv) simp
  then show ?thesis
    using False by (simp add: streamSentences_def Let_def)
qed

lemma Inv_handed:
  assumes "Inv ts F m"
  shows "map h_index (handed m) = [0..<length (handed m)]"
    and "map h_text (handed m) = take (length (handed m)) ts"
    and "length (handed m) = handedCount (pc m = AwaitPlayer) m"
proof -
  have i: "map h_index (handed m) = [0..<handedCount (pc m = AwaitPlayer) m]"
    and t: "map h_text (handed m) = take (handedCount (pc m = AwaitPlayer) m) ts"
    using assms by (simp_all add: Inv_def inv_at_def)
  have "length (map h_index (handed m)) = handedCount (pc m = AwaitPlayer) m"
    unfolding i by simp
  then show l: "length (handed m) = handedCount (pc m = AwaitPlayer) m"
    by simp
  show "map h_index (handed m) = [0..<length (handed m)]"
    using i l by simp
  show "map h_text (handed m) = take (length (handed m)) ts"
    using t l by simp
qed


text \<open>
  When the loop has returned and no item is cancelled, every chunk has been handed over.
\<close>

lemma Inv_all_handed:
  assumes inv: "Inv ts F m" and r: "pc m = Returned"
    and ok: "\<forall>j < length (queue m). status (queue m ! j) \<noteq> Cancelled"
  shows "map h_text (handed m) = ts"
proof -
  have le: "currentIndex m \<le> length (queue m)" and ts: "map text' (queue m) = ts"
    using inv by (simp_all add: Inv_def inv_at_def)
  have "currentIndex m = length (queue m)"
  proof (rule ccontr)
    assume ne: "currentIndex m \<noteq> length (queue m)"
    then have "status (queue m ! currentIndex m) = Cancelled"
      using inv r by (simp add: Inv_def)
    moreover have "currentIndex m < length (queue m)"
      using le ne by simp
    ultimately show False using ok by blast
  qed
  moreover have "length ts = length (queue m)"
    using ts by (metis length_map)
  ultimately show ?thesis
    using Inv_handed(2,3) [OF inv] r by (simp add: handedCount_def)
qed

lemma all_chunks_played:
  assumes "pc (run evs (streamText b t)) = Returned"
    and "\<forall>j < length (queue (run evs (streamText b t))).
           status (queue (run evs (streamText b t)) ! j) \<noteq> Cancelled"
  shows "map h_text (handed (run evs (streamText b t))) = splitIntoSentences t"
proof -
  have "Inv (splitIntoSentences t) {} (run evs (streamText b t))"
    unfolding streamText_def by (intro run_Inv streamSentences_Inv)
  then show ?thesis
    using assms by (rule Inv_all_handed)
qed

lemma out_of_order_example:
  "map (\<lambda>h. (h_target h, h_index h, h_audio h, h_isLast h))
     (handed (run [SynthesisDone 1 (Some [1]), SynthesisDone 0 (Some [0]), Resume False,
                   SynthesisDone 2 (Some [2]), Resume False, Resume True]
                (streamText False longResponse))) =
   [(LocalPlayer, 0, [0], False), (LocalPlayer, 1, [1], False), (Browser, 2, [2], True)]"
  by code_simp




lemma startGenerating_more [simp]:
  "completes (startGenerating i m) = completes m" "state (startGenerating i m) = state m"
  by (simp_all add: startGenerating_def setStatus_def)

lemma synthesisSettled_more [simp]:
  "completes (synthesisSettled i r m) = completes m" "state (synthesisSettled i r m) = state m"
  "isStopped (synthesisSettled i r m) = isStopped m"
  by (simp_all add: synthesisSettled_def setStatus_def Let_def split: option.splits)









lemma returned_is_final:
  "pc m = Returned \<Longrightarrow>
   pc (run evs m) = Returned \<and> handed (run evs m) = handed m \<and>
   state (run evs m) = state m \<and> completes (run evs m) = completes m"
proof (induction evs arbitrary: m)
  case Nil
  then show ?case by simp
next
  case (Cons e evs)
  have "pc (step e m) = Returned \<and> handed (step e m) = handed m \<and>
        state (step e m) = state m \<and> completes (step e m) = completes m"
    using Cons.prems by (cases e) simp_all
  then show ?case
    using Cons.IH [of "step e m"] by simp
qed






section \<open>Properties of the playback queue\<close>

lemmas player_defs =
  newPlayer_def addToQueue_def processQueue_def afterItem_def playItem_def initStream_def
  decodeDone_def resolvePlay_def clearWriteInterval_def tick_def pause_def resume_def
  stop_def skip_def setItemStatus_def bytesPerFrame_def frameSize_def Let_def

lemma cancelAll_apply:
  "cancelAll rs its r =
     (if r \<in> set rs \<and> status' (its r) \<noteq> Completed then (its r)\<lparr>status' := Cancelled\<rparr>
      else its r)"
  by (induction rs arbitrary: its) auto

lemma clearWriteInterval_fields [simp]:
  "writeInterval (clearWriteInterval p) = None"
  "queue' (clearWriteInterval p) = queue' p"
  "items (clearWriteInterval p) = items p"
  "state' (clearWriteInterval p) = state' p"
  "currentItem (clearWriteInterval p) = currentItem p"
  "isProcessingQueue (clearWriteInterval p) = isProcessingQueue p"
  "awaitingDecode (clearWriteInterval p) = awaitingDecode p"
  "awaitingPlay (clearWriteInterval p) = awaitingPlay p"
  "playStarts (clearWriteInterval p) = playStarts p"
  "allocated (clearWriteInterval p) = allocated p"
  by (simp_all add: clearWriteInterval_def split: option.splits)

lemma clearWriteInterval_timers:
  "set (timers p) \<subseteq> set_option (writeInterval p) \<Longrightarrow> timers (clearWriteInterval p) = []"
  by (cases "writeInterval p") (auto simp: clearWriteInterval_def filter_empty_conv removeAll_filter_not_eq)

lemma clearWriteInterval_idle:
  "writeInterval p = None \<Longrightarrow> clearWriteInterval p = p"
  by (simp add: clearWriteInterval_def)

lemma stop_fields:
  "queue' (stop p) = []" "state' (stop p) = Stopped" "writeInterval (stop p) = None"
  "currentItem (stop p) = None" "pcmOffset (stop p) = 0" "isProcessingQueue (stop p) = False"
  "items (stop p) = cancelAll (queue' p) (items p)"
  "timers (stop p) = timers (clearWriteInterval p)"
  by (simp_all add: stop_def Let_def clearWriteInterval_def split: option.splits)

lemma stop_again:
  assumes "queue' q = []" "state' q = Stopped" "writeInterval q = None"
    "currentItem q = None" "pcmOffset q = 0" "isProcessingQueue q = False"
  shows "stop q = q"
  using assms by (simp add: stop_def Let_def clearWriteInterval_def)

lemma stop_cancels_and_empties:
  "queue' (stop p) = [] \<and> state' (stop p) = Stopped \<and>
   (\<forall>r \<in> set (queue' p).
      status' (items (stop p) r) =
        (if status' (items p r) = Completed then Completed else Cancelled)) \<and>
   stop (stop p) = stop p"
proof -
  have again: "stop (stop p) = stop p"
    by (rule stop_again) (simp_all add: stop_fields)
  have st: "\<forall>r \<in> set (queue' p).
            status' (items (stop p) r) =
              (if status' (items p r) = Completed then Completed else Cancelled)"
    by (simp add: stop_fields cancelAll_apply)
  show ?thesis
    using again st by (simp add: stop_fields)
qed

text \<open>
  After \<open>stop\<close> in a player whose only running write timer is the one it holds in
  \<open>writeInterval\<close>, no timer is left, and no sequence of ticks changes anything.
\<close>

lemma ticks_without_timer:
  "timers p = [] \<Longrightarrow> playerRun (map Tick rs) p = p"
  by (induction rs) (simp_all add: tick_def)

lemma stop_stays_stopped:
  assumes "set (timers p) \<subseteq> set_option (writeInterval p)"
  shows "playerRun (map Tick rs) (stop p) = stop p"
    and "state' (playerRun (map Tick rs) (stop p)) = Stopped"
proof -
  have "timers (stop p) = []"
    using assms by (simp add: stop_fields clearWriteInterval_timers)
  then show "playerRun (map Tick rs) (stop p) = stop p"
    by (rule ticks_without_timer)
  then show "state' (playerRun (map Tick rs) (stop p)) = Stopped"
    by (simp add: stop_fields)
qed

lemma playingPlayer_facts:
  "timers playingPlayer = [0]" "writeInterval playingPlayer = Some 0"
  "queue' playingPlayer = [0, 1]"
  "status' (items playingPlayer 0) = Playing" "status' (items playingPlayer (Suc 0)) = Pending"
  "state' playingPlayer = StatePlaying" "currentItem playingPlayer = Some 0"
  "awaitingDecode playingPlayer = []" "awaitingPlay playingPlayer = [0]"
  "isProcessingQueue playingPlayer" "playStarts playingPlayer = [0]"
  "allocated playingPlayer = 2"
  by (simp_all add: playingPlayer_def player_defs)

text \<open>
  What the callback of the write timer does when it runs after \<open>stop\<close>. Here the timer
  of item 0 is left running, because the timer of item 1 has taken its place in
  \<open>writeInterval\<close>. After \<open>stop\<close> the callback of the timer of item 0 finds no current
  item and resolves the promise of \<open>playItem\<close>; \<open>processQueue\<close> goes on, finds the queue
  empty and sets the state to \<open>idle\<close>.
\<close>

lemma callback_after_stop_sets_idle:
  "state' (playerRun [AddToQueue [1] None, Stop, AddToQueue [2] None,
                      DecodeDone 0 (Decoded [1, 2] 48000 1) Opens,
                      DecodeDone 1 (Decoded [1, 2] 48000 1) Opens, Stop] newPlayer) = Stopped \<and>
   timers (playerRun [AddToQueue [1] None, Stop, AddToQueue [2] None,
                      DecodeDone 0 (Decoded [1, 2] 48000 1) Opens,
                      DecodeDone 1 (Decoded [1, 2] 48000 1) Opens, Stop] newPlayer) = [0] \<and>
   state' (playerRun [AddToQueue [1] None, Stop, AddToQueue [2] None,
                      DecodeDone 0 (Decoded [1, 2] 48000 1) Opens,
                      DecodeDone 1 (Decoded [1, 2] 48000 1) Opens, Stop, Tick 0] newPlayer) = Idle"
  by (simp add: player_defs)

text \<open>
  C4 on the code. Item 0 is playing and item 1 is pending when \<open>stop\<close> is called. Both
  items end cancelled, the queue is empty, and a second \<open>stop\<close> changes nothing. But the
  state is \<open>stopped\<close> and not \<open>idle\<close>, after the next tick and after every later one:
  \<open>stop\<close> clears the write timer, whose callback alone resolves the promise that
  \<open>processQueue\<close> awaits, so \<open>processQueue\<close> never goes on to set the state to \<open>idle\<close>
  and to call \<open>onComplete\<close>.
\<close>

theorem C4_stop_stays_stopped:
  "queue' (playerRun [Stop] playingPlayer) = [] \<and>
   status' (items (playerRun [Stop] playingPlayer) 0) = Cancelled \<and>
   status' (items (playerRun [Stop] playingPlayer) 1) = Cancelled \<and>
   playerRun [Stop, Stop] playingPlayer = playerRun [Stop] playingPlayer \<and>
   timers (playerRun [Stop] playingPlayer) = [] \<and>
   state' (playerRun [Stop, Tick 0] playingPlayer) = Stopped \<and>
   state' (playerRun [Stop, Tick 0, Tick 1, Tick 0] playingPlayer) = Stopped \<and>
   awaitingPlay (playerRun [Stop, Tick 0, Tick 1, Tick 0] playingPlayer) = [0] \<and>
   completeCalls (playerRun [Stop, Tick 0, Tick 1, Tick 0] playingPlayer) = 0"
  by (simp add: playingPlayer_def player_defs)

text \<open>The queue at work: item 0 plays to its end, then item 1 is decoded and played.\<close>

lemma normal_play:
  "map (\<lambda>r. status' (items (playerRun [Tick 0, Tick 0, DecodeDone 1 (Decoded [1, 2] 48000 1) Opens,
       Tick 1, Tick 1] playingPlayer) r)) [0, 1] = [Completed, Completed] \<and>
   playStarts (playerRun [Tick 0, Tick 0, DecodeDone 1 (Decoded [1, 2] 48000 1) Opens,
       Tick 1, Tick 1] playingPlayer) = [0, 1] \<and>
   state' (playerRun [Tick 0, Tick 0, DecodeDone 1 (Decoded [1, 2] 48000 1) Opens,
       Tick 1, Tick 1] playingPlayer) = Idle"
  by (simp add: playingPlayer_def player_defs)

text \<open>
  C8 on the code. Item 0 is playing and item 1 is pending when \<open>skip\<close> is called. Item 0
  ends cancelled, but item 1 never starts: \<open>skip\<close> clears the write timer, whose
  callback alone resolves the promise that \<open>processQueue\<close> awaits, so the queue does
  not advance and \<open>isProcessingQueue\<close> stays set.
\<close>

theorem C8_skip_stalls:
  "status' (items (playerRun [Skip, Tick 0, Tick 1, Tick 0] playingPlayer) 0) = Cancelled \<and>
   status' (items (playerRun [Skip, Tick 0, Tick 1, Tick 0] playingPlayer) 1) = Pending \<and>
   playStarts (playerRun [Skip, Tick 0, Tick 1, Tick 0] playingPlayer) = [0] \<and>
   isProcessingQueue (playerRun [Skip, Tick 0, Tick 1, Tick 0] playingPlayer) \<and>
   awaitingPlay (playerRun [Skip, Tick 0, Tick 1, Tick 0] playingPlayer) = [0] \<and>
   timers (playerRun [Skip, Tick 0, Tick 1, Tick 0] playingPlayer) = []"
  by (simp add: playingPlayer_def player_defs)

text \<open>
  The same for every continuation without \<open>stop\<close>: in a player with no running timer
  and no decoding under way whose \<open>isProcessingQueue\<close> is set, no event but \<open>stop\<close>
  starts an item.
\<close>

lemma stalled_step:
  assumes "stalled p" and "e \<noteq> Stop"
  shows "stalled (playerStep e p) \<and> playStarts (playerStep e p) = playStarts p \<and>
         (\<forall>r < allocated p. status' (items (playerStep e p) r) = status' (items p r)) \<and>
         allocated p \<le> allocated (playerStep e p)"
  using assms by (cases e) (simp_all add: stalled_def player_defs setMuted_def setVolume_def)

lemma stalled_run:
  assumes "stalled p" and "Stop \<notin> set evs"
  shows "playStarts (playerRun evs p) = playStarts p \<and>
         (\<forall>r < allocated p. status' (items (playerRun evs p) r) = status' (items p r))"
  using assms
proof (induction evs arbitrary: p)
  case Nil
  then show ?case by simp
next
  case (Cons e evs)
  have e: "e \<noteq> Stop" and evs: "Stop \<notin> set evs"
    using Cons.prems(2) by auto
  note s = stalled_step [OF Cons.prems(1) e]
  have "playStarts (playerRun evs (playerStep e p)) = playStarts (playerStep e p) \<and>
        (\<forall>r < allocated (playerStep e p).
           status' (items (playerRun evs (playerStep e p)) r) = status' (items (playerStep e p) r))"
    using Cons.IH [of "playerStep e p"] s evs by blast
  then show ?case
    using s by auto
qed

lemma skip_stalls_forever:
  assumes "Stop \<notin> set evs"
  shows "playStarts (playerRun evs (skip playingPlayer)) = [0] \<and>
         status' (items (playerRun evs (skip playingPlayer)) 0) = Cancelled \<and>
         status' (items (playerRun evs (skip playingPlayer)) 1) = Pending"
proof -
  have st: "stalled (skip playingPlayer)"
    by (simp add: stalled_def playingPlayer_def player_defs)
  have f: "playStarts (skip playingPlayer) = [0]" "allocated (skip playingPlayer) = 2"
    "status' (items (skip playingPlayer) 0) = Cancelled"
    "status' (items (skip playingPlayer) 1) = Pending"
    by (simp_all add: playingPlayer_def player_defs)
  show ?thesis
    using stalled_run [OF st assms] f by simp
qed

end
